theory Spec2Isabelle
  imports Main
begin

section \<open>Strings, characters and literal search\<close>

text \<open>
  A Python \<open>str\<close> is modelled as a \<open>string\<close> (a list of \<open>char\<close>); a \<open>char\<close> stands for
  a code point below 256. Offsets into a text are natural numbers, as \<open>m.start()\<close> and
  \<open>m.end()\<close> are.
\<close>

abbreviation bsl :: char where "bsl \<equiv> CHR 0x5C"
abbreviation nl :: char where "nl \<equiv> CHR 0x0A"
abbreviation tab :: char where "tab \<equiv> CHR 0x09"

text \<open>\<open>str.isspace\<close> and the regex class \<open>\s\<close>, on code points below 256.\<close>

definition is_space :: "char \<Rightarrow> bool" where
  "is_space c = ((of_char c :: nat) \<in> set [9, 10, 11, 12, 13, 28, 29, 30, 31, 32, 133, 160])"

text \<open>The regex class \<open>[a-zA-Z]\<close>.\<close>

definition is_alpha :: "char \<Rightarrow> bool" where
  "is_alpha c = (let n = (of_char c :: nat) in (65 \<le> n \<and> n \<le> 90) \<or> (97 \<le> n \<and> n \<le> 122))"

text \<open>The regex class \<open>\d\<close>, on code points below 256.\<close>

definition is_digit :: "char \<Rightarrow> bool" where
  "is_digit c = (let n = (of_char c :: nat) in 48 \<le> n \<and> n \<le> 57)"

text \<open>\<open>s.strip()\<close> and \<open>s.strip(chars)\<close>.\<close>

definition strip :: "string \<Rightarrow> string" where
  "strip s = rev (dropWhile is_space (rev (dropWhile is_space s)))"

definition strip_chars :: "string \<Rightarrow> string \<Rightarrow> string" where
  "strip_chars chars s =
     rev (dropWhile (\<lambda>c. c \<in> set chars) (rev (dropWhile (\<lambda>c. c \<in> set chars) s)))"

text \<open>\<open>s[a:b]\<close> for offsets \<open>0 \<le> a\<close>, \<open>0 \<le> b\<close>.\<close>

definition slice :: "string \<Rightarrow> nat \<Rightarrow> nat \<Rightarrow> string" where
  "slice s a b = take (b - a) (drop a s)"

text \<open>\<open>s.startswith(p)\<close>: the literal \<open>p\<close> matches at the head of \<open>s\<close>.\<close>

fun starts_with :: "string \<Rightarrow> string \<Rightarrow> bool" where
  "starts_with [] s = True"
| "starts_with (p # ps) [] = False"
| "starts_with (p # ps) (c # cs) = (p = c \<and> starts_with ps cs)"

text \<open>
  \<open>re.search\<close> of a literal pattern: the offset of the leftmost occurrence of \<open>p\<close> in
  \<open>s\<close>, \<open>None\<close> when there is none.
\<close>

fun find_sub :: "string \<Rightarrow> string \<Rightarrow> nat option" where
  "find_sub p [] = (if p = [] then Some 0 else None)"
| "find_sub p (c # cs) =
     (if starts_with p (c # cs) then Some 0 else map_option Suc (find_sub p cs))"

text \<open>\<open>pattern.search(s, pos)\<close> of a compiled literal pattern: the offset is absolute.\<close>

definition search_from :: "string \<Rightarrow> string \<Rightarrow> nat \<Rightarrow> nat option" where
  "search_from p s pos = map_option (\<lambda>i. pos + i) (find_sub p (drop pos s))"

section \<open>The block extractor: \<open>find_environments\<close>\<close>

text \<open>
  The source builds the regular expressions \<open>\\begin\{env\}\<close> and \<open>\\end\{env\}\<close> from the
  environment name. For a name made of letters, as every entry of \<open>ENV_TYPES\<close> is, these
  match exactly the literal markers below.
\<close>

definition ENV_TYPES :: "string list" where
  "ENV_TYPES = [''theorem'', ''proposition'', ''definition'', ''lemma'', ''corollary'']"

definition begin_marker :: "string \<Rightarrow> string" where
  "begin_marker env = bsl # ''begin{'' @ env @ ''}''"

definition end_marker :: "string \<Rightarrow> string" where
  "end_marker env = bsl # ''end{'' @ env @ ''}''"

text \<open>
  One iteration of the inner \<open>while depth > 0\<close> loop on the state
  \<open>(depth, search_pos, end_pos)\<close>. \<open>None\<close> is leaving the loop: the condition
  \<open>depth > 0\<close> is false, or the \<open>break\<close> on a missing close marker.
\<close>

type_synonym inner_state = "nat \<times> nat \<times> nat option"

definition inner_step :: "string \<Rightarrow> string \<Rightarrow> inner_state \<Rightarrow> inner_state option" where
  "inner_step tex env st =
     (case st of (depth, search_pos, end_pos) \<Rightarrow>
        if depth > 0 then
          (let next_begin = find_sub (begin_marker env) (drop search_pos tex);
               next_end = find_sub (end_marker env) (drop search_pos tex)
           in case next_end of
                None \<Rightarrow> None
              | Some e \<Rightarrow>
                  (case next_begin of
                     Some b \<Rightarrow>
                       if b < e
                       then Some (depth + 1, search_pos + (b + length (begin_marker env)), end_pos)
                       else Some (depth - 1, search_pos + (e + length (end_marker env)),
                                  if depth - 1 = 0 then Some (search_pos + e) else end_pos)
                   | None \<Rightarrow>
                       Some (depth - 1, search_pos + (e + length (end_marker env)),
                             if depth - 1 = 0 then Some (search_pos + e) else end_pos)))
        else None)"

lemma starts_with_length: "starts_with p s \<Longrightarrow> length p \<le> length s"
  by (induction p s rule: starts_with.induct) auto

lemma find_sub_bound: "find_sub p s = Some i \<Longrightarrow> i + length p \<le> length s"
proof (induction s arbitrary: i)
  case Nil
  then show ?case by (simp split: if_splits)
next
  case (Cons c cs)
  show ?case
  proof (cases "starts_with p (c # cs)")
    case True
    with Cons.prems starts_with_length [OF True] show ?thesis by simp
  next
    case False
    with Cons.prems obtain j where "find_sub p cs = Some j" "i = Suc j" by auto
    with Cons.IH show ?thesis by simp
  qed
qed

lemma inner_step_progress:
  assumes "inner_step tex env (depth, search_pos, end_pos) = Some (depth', search_pos', end_pos')"
  shows "search_pos < search_pos' \<and> search_pos' \<le> length tex"
proof -
  have lb: "0 < length (begin_marker env)" and le: "0 < length (end_marker env)"
    by (simp_all add: begin_marker_def end_marker_def)
  from assms obtain m k where
    f: "find_sub m (drop search_pos tex) = Some k" and l: "0 < length m"
    and s: "search_pos' = search_pos + (k + length m)"
    using lb le
    by (auto simp: inner_step_def Let_def split: if_splits option.splits)
  from find_sub_bound [OF f] have "k + length m \<le> length tex - search_pos" by simp
  with l s show ?thesis by arith
qed

function inner_loop :: "string \<Rightarrow> string \<Rightarrow> inner_state \<Rightarrow> inner_state" where
  "inner_loop tex env st =
     (case inner_step tex env st of None \<Rightarrow> st | Some st' \<Rightarrow> inner_loop tex env st')"
  by pat_completeness auto
termination
proof (relation "measure (\<lambda>(tex, env, (depth, search_pos, end_pos)). length tex - search_pos)")
  show "wf (measure (\<lambda>(tex, env, (depth, search_pos, end_pos)). length tex - search_pos))"
    by simp
next
  fix tex env st st'
  assume "inner_step tex env st = Some st'"
  then show "((tex, env, st'), (tex, env, st))
      \<in> measure (\<lambda>(tex, env, (depth, search_pos, end_pos)). length tex - search_pos)"
    using inner_step_progress [of tex env "fst st" "fst (snd st)" "snd (snd st)"
        "fst st'" "fst (snd st')" "snd (snd st')"]
    by (cases st; cases st') auto
qed

declare inner_loop.simps [simp del]

text \<open>
  One iteration of the outer \<open>while True\<close> loop of one environment name, on the state
  \<open>(pos, results)\<close>; \<open>None\<close> is the \<open>break\<close> when no open marker is left. A block is
  \<open>(env, body, start)\<close>.
\<close>

type_synonym block = "string \<times> string \<times> nat"

type_synonym outer_state = "nat \<times> block list"

definition outer_step :: "string \<Rightarrow> string \<Rightarrow> outer_state \<Rightarrow> outer_state option" where
  "outer_step tex env st =
     (case st of (pos, results) \<Rightarrow>
        case search_from (begin_marker env) tex pos of
          None \<Rightarrow> None
        | Some start \<Rightarrow>
            (let content_start = start + length (begin_marker env);
                 end_pos = snd (snd (inner_loop tex env (1, content_start, None)))
             in case end_pos of
                  Some e \<Rightarrow>
                    Some (content_start,
                          results @ [(env, strip (slice tex content_start e), start)])
                | None \<Rightarrow> Some (content_start, results)))"

lemma outer_step_progress:
  assumes "outer_step tex env (pos, results) = Some (pos', results')"
  shows "pos < pos' \<and> pos' \<le> length tex"
proof -
  from assms obtain k where
    f: "find_sub (begin_marker env) (drop pos tex) = Some k"
    and s: "pos' = pos + k + length (begin_marker env)"
    by (auto simp: outer_step_def search_from_def Let_def split: option.splits)
  have "0 < length (begin_marker env)" by (simp add: begin_marker_def)
  moreover from find_sub_bound [OF f]
  have "k + length (begin_marker env) \<le> length tex - pos" by simp
  ultimately show ?thesis using s by arith
qed

function outer_loop :: "string \<Rightarrow> string \<Rightarrow> outer_state \<Rightarrow> outer_state" where
  "outer_loop tex env st =
     (case outer_step tex env st of None \<Rightarrow> st | Some st' \<Rightarrow> outer_loop tex env st')"
  by pat_completeness auto
termination
proof (relation "measure (\<lambda>(tex, env, (pos, results)). length tex - pos)")
  show "wf (measure (\<lambda>(tex, env, (pos, results)). length tex - pos))"
    by simp
next
  fix tex env st st'
  assume "outer_step tex env st = Some st'"
  then show "((tex, env, st'), (tex, env, st))
      \<in> measure (\<lambda>(tex, env, (pos, results)). length tex - pos)"
    using outer_step_progress [of tex env "fst st" "snd st" "fst st'" "snd st'"]
    by (cases st; cases st') auto
qed

declare outer_loop.simps [simp del]

text \<open>
  The \<open>for env in env_types\<close> loop appends to one \<open>results\<close> list; the final
  \<open>results.sort(key=lambda x: x[2])\<close> is a stable sort on the start offset.
\<close>

definition block_start :: "block \<Rightarrow> nat" where
  "block_start b = snd (snd b)"

definition find_environments :: "string \<Rightarrow> string list \<Rightarrow> block list" where
  "find_environments tex_content env_types =
     sort_key block_start
       (fold (\<lambda>env results. snd (outer_loop tex_content env (0, results))) env_types [])"

section \<open>Regular-expression substitution and the macro expander: \<open>expand_macros\<close>\<close>

text \<open>
  \<open>re.sub(pattern, repl, text)\<close> for the patterns of this program. A pattern is given by
  its matcher: from the character before the current position (\<open>None\<close> at the start of
  the text; the lookbehinds and \<open>^\<close> read it) and the rest of the text, the length of the
  match that starts here and the text that replaces it. The scan goes from left to
  right, copies the characters where nothing matches and resumes after each match. An
  empty match (only the arity-0 pattern of an empty macro name has one) inserts the
  replacement and moves on by one character.
\<close>

type_synonym matcher = "char option \<Rightarrow> string \<Rightarrow> (nat \<times> string) option"

fun re_sub :: "matcher \<Rightarrow> char option \<Rightarrow> string \<Rightarrow> string" where
  "re_sub m prev [] = (case m prev [] of Some (n, r) \<Rightarrow> r | None \<Rightarrow> [])"
| "re_sub m prev (c # cs) =
     (case m prev (c # cs) of
        None \<Rightarrow> c # re_sub m (Some c) cs
      | Some (n, r) \<Rightarrow>
          if n = 0 then r @ c # re_sub m (Some c) cs
          else r @ re_sub m (Some (last (take n (c # cs)))) (drop n (c # cs)))"

text \<open>
  \<open>s.replace(old, new)\<close>: every occurrence of the literal, from left to right.
\<close>

definition literal_matcher :: "string \<Rightarrow> string \<Rightarrow> matcher" where
  "literal_matcher old new prev s = (if starts_with old s then Some (length old, new) else None)"

definition replace_all :: "string \<Rightarrow> string \<Rightarrow> string \<Rightarrow> string" where
  "replace_all old new s = re_sub (literal_matcher old new) None s"

text \<open>
  A macro is \<open>(name, num_args, replacement)\<close>. The three patterns of \<open>expand_macros\<close>
  are built from \<open>re.escape(name)\<close>, which matches the name literally:
  the name not followed by a letter (\<open>(?![a-zA-Z])\<close>) for arity 0, the name followed
  by one braced argument \<open>\{([^}]*)\}\<close> for arity 1, and by two for arity 2. The
  replacement of arity 0 is the template as it is; for arity 1 and 2 the placeholders
  \<open>#1\<close> and \<open>#2\<close> are replaced in it, one \<open>str.replace\<close> after the other.
\<close>

type_synonym macro = "string \<times> nat \<times> string"

definition macro0_matcher :: "string \<Rightarrow> string \<Rightarrow> matcher" where
  "macro0_matcher name replacement prev s =
     (if starts_with name s \<and>
         (case drop (length name) s of [] \<Rightarrow> True | c # _ \<Rightarrow> \<not> is_alpha c)
      then Some (length name, replacement) else None)"

text \<open>
  \<open>\{([^}]*)\}\<close> at the head of a text: the argument and the text after the closing
  brace.
\<close>

definition braced_arg :: "string \<Rightarrow> (string \<times> string) option" where
  "braced_arg s =
     (case s of
        [] \<Rightarrow> None
      | c # cs \<Rightarrow>
          if c = CHR ''{'' then
            (let arg = takeWhile (\<lambda>x. x \<noteq> CHR ''}'') cs
             in case dropWhile (\<lambda>x. x \<noteq> CHR ''}'') cs of
                  [] \<Rightarrow> None
                | _ # rest \<Rightarrow> Some (arg, rest))
          else None)"

definition macro1_matcher :: "string \<Rightarrow> string \<Rightarrow> matcher" where
  "macro1_matcher name replacement prev s =
     (if starts_with name s then
        (case braced_arg (drop (length name) s) of
           None \<Rightarrow> None
         | Some (arg1, rest) \<Rightarrow>
             Some (length s - length rest, replace_all ''#1'' arg1 replacement))
      else None)"

definition macro2_matcher :: "string \<Rightarrow> string \<Rightarrow> matcher" where
  "macro2_matcher name replacement prev s =
     (if starts_with name s then
        (case braced_arg (drop (length name) s) of
           None \<Rightarrow> None
         | Some (arg1, rest1) \<Rightarrow>
             (case braced_arg rest1 of
                None \<Rightarrow> None
              | Some (arg2, rest2) \<Rightarrow>
                  Some (length s - length rest2,
                        replace_all ''#2'' arg2 (replace_all ''#1'' arg1 replacement))))
      else None)"

text \<open>
  The body of the loop over the macros: the \<open>if\<close>/\<open>elif\<close> chain on \<open>num_args\<close>
  has no branch for an arity above 2, which leaves the text as it is.
\<close>

definition apply_macro :: "macro \<Rightarrow> string \<Rightarrow> string" where
  "apply_macro mc text =
     (case mc of (name, num_args, replacement) \<Rightarrow>
        if num_args = 0 then re_sub (macro0_matcher name replacement) None text
        else if num_args = 1 then re_sub (macro1_matcher name replacement) None text
        else if num_args = 2 then re_sub (macro2_matcher name replacement) None text
        else text)"

text \<open>
  One pass over the macro list, and the three passes of \<open>for _ in range(3)\<close>.
\<close>

definition expand_pass :: "macro list \<Rightarrow> string \<Rightarrow> string" where
  "expand_pass macros text = fold apply_macro macros text"

definition expand_macros :: "string \<Rightarrow> macro list \<Rightarrow> string" where
  "expand_macros text macros = expand_pass macros (expand_pass macros (expand_pass macros text))"

section \<open>The markup-to-display converter: \<open>latex_to_anki_mathjax\<close>\<close>

text \<open>
  The patterns of the converter have the shape \<open>opening(.*?)closing\<close> with
  \<open>re.DOTALL\<close>: after the opening, the lazy group ends at the first position where the
  closing matches. A part of a pattern is given by the length of its match at the head of
  a text, from the character before it.
\<close>

type_synonym tail_matcher = "char option \<Rightarrow> string \<Rightarrow> nat option"

fun lazy_until :: "tail_matcher \<Rightarrow> char option \<Rightarrow> string \<Rightarrow> (nat \<times> nat) option" where
  "lazy_until close prev [] = map_option (Pair 0) (close prev [])"
| "lazy_until close prev (c # cs) =
     (case close prev (c # cs) of
        Some n \<Rightarrow> Some (0, n)
      | None \<Rightarrow> map_option (\<lambda>(k, n). (Suc k, n)) (lazy_until close (Some c) cs))"

text \<open>
  The character before the position reached after a match of length \<open>n\<close>.
\<close>

definition prev_after :: "char option \<Rightarrow> nat \<Rightarrow> string \<Rightarrow> char option" where
  "prev_after prev n s = (if n = 0 \<or> s = [] then prev else Some (last (take n s)))"

definition delim_matcher :: "tail_matcher \<Rightarrow> tail_matcher \<Rightarrow> (string \<Rightarrow> string) \<Rightarrow> matcher" where
  "delim_matcher opening closing wrap prev s =
     (case opening prev s of
        None \<Rightarrow> None
      | Some n_open \<Rightarrow>
          (case lazy_until closing (prev_after prev n_open s) (drop n_open s) of
             None \<Rightarrow> None
           | Some (k, n_close) \<Rightarrow>
               Some (n_open + k + n_close, wrap (take k (drop n_open s)))))"

text \<open>
  A literal; \<open>\\begin\{align\*?\}\<close> and its like, a tag with an optional star; and the
  single dollar \<open>(?<!\$)\$(?!\$)\<close>, a dollar with no dollar before or after it.
\<close>

definition lit :: "string \<Rightarrow> tail_matcher" where
  "lit p prev s = (if starts_with p s then Some (length p) else None)"

definition star_tag :: "string \<Rightarrow> tail_matcher" where
  "star_tag pre prev s =
     (if starts_with (pre @ ''*}'') s then Some (length pre + 2)
      else if starts_with (pre @ ''}'') s then Some (length pre + 1)
      else None)"

definition single_dollar :: tail_matcher where
  "single_dollar prev s =
     (case s of
        [] \<Rightarrow> None
      | c # cs \<Rightarrow>
          if c = CHR ''$'' \<and> prev \<noteq> Some (CHR ''$'') \<and>
             (case cs of [] \<Rightarrow> True | d # _ \<Rightarrow> d \<noteq> CHR ''$'')
          then Some 1 else None)"

text \<open>
  \<open>re.split(pattern, s)\<close> for a pattern without groups that matches no empty text:
  the pieces between the matches. The one pattern split on is \<open>\\item\s*\<close>.
\<close>

fun re_split :: "(string \<Rightarrow> nat option) \<Rightarrow> string \<Rightarrow> string \<Rightarrow> string list" where
  "re_split m cur [] = [cur]"
| "re_split m cur (c # cs) =
     (case m (c # cs) of
        None \<Rightarrow> re_split m (cur @ [c]) cs
      | Some n \<Rightarrow>
          if n = 0 then re_split m (cur @ [c]) cs
          else cur # re_split m [] (drop n (c # cs)))"

definition item_matcher :: "string \<Rightarrow> nat option" where
  "item_matcher s =
     (if starts_with (bsl # ''item'') s
      then Some (5 + length (takeWhile is_space (drop 5 s))) else None)"

text \<open>
  \<open>convert_enumerate\<close> and \<open>convert_itemize\<close>: the items are the pieces between
  the item markers, trimmed, the empty ones dropped, each wrapped in \<open><li>\<close>.
\<close>

definition html_list :: "string \<Rightarrow> string \<Rightarrow> string" where
  "html_list tag content =
     (let items = re_split item_matcher [] content;
          items = filter (\<lambda>i. i \<noteq> []) (map strip items);
          html_items = concat (map (\<lambda>item. ''<li>'' @ item @ ''</li>'') items)
      in ''<'' @ tag @ ''>'' @ html_items @ ''</'' @ tag @ ''>'')"

definition convert_enumerate :: "string \<Rightarrow> string" where
  "convert_enumerate content = html_list ''ol'' content"

definition convert_itemize :: "string \<Rightarrow> string" where
  "convert_itemize content = html_list ''ul'' content"

text \<open>
  The optional group \<open>(?:\[[^\]]*\])?\<close> of the enumerate pattern, when it matches.
\<close>

definition bracket_opt :: "string \<Rightarrow> nat option" where
  "bracket_opt s =
     (case s of
        [] \<Rightarrow> None
      | c # cs \<Rightarrow>
          if c = CHR ''['' then
            (case dropWhile (\<lambda>x. x \<noteq> CHR '']'') cs of
               [] \<Rightarrow> None
             | _ # _ \<Rightarrow> Some (length (takeWhile (\<lambda>x. x \<noteq> CHR '']'') cs) + 2))
          else None)"

text \<open>
  \<open>\\begin\{enumerate\}(?:\[[^\]]*\])?(.*?)\\end\{enumerate\}\<close>: the optional group is
  tried first; when the rest of the pattern fails after it, the pattern is tried again
  without it.
\<close>

definition enumerate_matcher :: matcher where
  "enumerate_matcher prev s =
     (let opening = bsl # ''begin{enumerate}'';
          closing = lit (bsl # ''end{enumerate}'')
      in if starts_with opening s then
           (let rest = drop (length opening) s;
                with_options =
                  (case bracket_opt rest of
                     None \<Rightarrow> None
                   | Some n_opt \<Rightarrow>
                       (case lazy_until closing (Some (CHR '']'')) (drop n_opt rest) of
                          None \<Rightarrow> None
                        | Some (k, n_close) \<Rightarrow>
                            Some (length opening + n_opt + k + n_close,
                                  convert_enumerate (take k (drop n_opt rest)))))
            in case with_options of
                 Some r \<Rightarrow> Some r
               | None \<Rightarrow>
                   (case lazy_until closing (Some (CHR ''}'')) rest of
                      None \<Rightarrow> None
                    | Some (k, n_close) \<Rightarrow>
                        Some (length opening + k + n_close, convert_enumerate (take k rest))))
         else None)"

text \<open>
  \<open>\\textit\{([^}]*)\}\<close> with the replacement \<open><i>\1</i>\<close>, and its like.
\<close>

definition emphasis_matcher :: "string \<Rightarrow> string \<Rightarrow> matcher" where
  "emphasis_matcher cmd tag prev s =
     (if starts_with (bsl # cmd) s then
        (case braced_arg (drop (length cmd + 1) s) of
           None \<Rightarrow> None
         | Some (arg, rest) \<Rightarrow>
             Some (length s - length rest, ''<'' @ tag @ ''>'' @ arg @ ''</'' @ tag @ ''>''))
      else None)"

text \<open>
  \<open>text.split(sep)\<close> on a one-character separator, and \<open>sep.join(parts)\<close>.
\<close>

fun split_char :: "char \<Rightarrow> string \<Rightarrow> string list" where
  "split_char sep [] = [[]]"
| "split_char sep (c # cs) =
     (if c = sep then [] # split_char sep cs
      else (case split_char sep cs of [] \<Rightarrow> [[c]] | p # ps \<Rightarrow> (c # p) # ps))"

fun join :: "string \<Rightarrow> string list \<Rightarrow> string" where
  "join sep [] = []"
| "join sep [x] = x"
| "join sep (x # y # ys) = x @ sep @ join sep (y # ys)"

text \<open>
  The number of line-break markers \<open><br>\<close> that follow each other at the head of a
  text: what the greedy group \<open>(<br>)+\<close> takes.
\<close>

fun br_run :: "string \<Rightarrow> nat" where
  "br_run (a # b # c # d # s) =
     (if [a, b, c, d] = ''<br>'' then Suc (br_run s) else 0)"
| "br_run s = 0"

text \<open>
  \<open>(<br>){3,}\<close> replaced by two markers; \<open>^(<br>)+\<close>, which matches at the start
  of the text only; and \<open>(<br>)+$\<close>, which matches where the run of markers reaches the
  end of the text (or a last newline).
\<close>

definition collapse_matcher :: matcher where
  "collapse_matcher prev s = (let k = br_run s in if 3 \<le> k then Some (4 * k, ''<br><br>'') else None)"

definition leading_br_matcher :: matcher where
  "leading_br_matcher prev s =
     (let k = br_run s in if prev = None \<and> 1 \<le> k then Some (4 * k, []) else None)"

definition trailing_br_matcher :: matcher where
  "trailing_br_matcher prev s =
     (let k = br_run s; rest = drop (4 * k) s
      in if 1 \<le> k \<and> (rest = [] \<or> rest = [nl]) then Some (4 * k, []) else None)"

text \<open>
  The last step of \<open>latex_to_anki_mathjax\<close> (from \<open>lines = text.split(...)\<close> to
  the \<open>return\<close>). \<open>text.strip('<br>')\<close> is \<open>str.strip\<close> with a set of
  characters.
\<close>

definition normalize_whitespace :: "string \<Rightarrow> string" where
  "normalize_whitespace text0 =
     (let lines = split_char nl text0;
          cleaned_lines = map strip lines;
          text = join ''<br>'' cleaned_lines;
          text = re_sub collapse_matcher None text;
          text = strip_chars ''<br>'' text;
          text = re_sub leading_br_matcher None text;
          text = re_sub trailing_br_matcher None text
      in strip text)"

text \<open>
  The two math steps: \<open>\$\$(.*?)\$\$\<close> to the display wrapper, then the single-dollar
  pattern to the inline wrapper.
\<close>

definition convert_display_math :: "string \<Rightarrow> string" where
  "convert_display_math text =
     re_sub (delim_matcher (lit ''$$'') (lit ''$$'') (\<lambda>g. bsl # ''['' @ g @ bsl # '']'')) None text"

definition convert_inline_math :: "string \<Rightarrow> string" where
  "convert_inline_math text =
     re_sub (delim_matcher single_dollar single_dollar (\<lambda>g. bsl # ''('' @ g @ bsl # '')''))
       None text"

text \<open>
  The converter, one rewrite after the other in the order of the source.
\<close>

definition latex_to_anki_mathjax :: "string \<Rightarrow> string" where
  "latex_to_anki_mathjax text0 =
     (let text = replace_all (bsl # ''qed'') [] text0;
          text = replace_all (bsl # ''par'') [] text;
          text = re_sub (delim_matcher (star_tag (bsl # ''begin{align'')) (star_tag (bsl # ''end{align''))
                   (\<lambda>g. bsl # ''['' @ bsl # ''begin{aligned}'' @ g @ bsl # ''end{aligned}'' @ bsl # '']''))
                   None text;
          text = re_sub (delim_matcher (star_tag (bsl # ''begin{equation'')) (star_tag (bsl # ''end{equation''))
                   (\<lambda>g. bsl # ''['' @ g @ bsl # '']'')) None text;
          text = re_sub enumerate_matcher None text;
          text = re_sub (delim_matcher (lit (bsl # ''begin{itemize}'')) (lit (bsl # ''end{itemize}''))
                   convert_itemize) None text;
          text = convert_display_math text;
          text = convert_inline_math text;
          text = re_sub (emphasis_matcher ''textit'' ''i'') None text;
          text = re_sub (emphasis_matcher ''textbf'' ''b'') None text;
          text = re_sub (emphasis_matcher ''emph'' ''i'') None text
      in normalize_whitespace text)"

section \<open>The macro table builder: \<open>parse_macros\<close>\<close>

text \<open>
  \<open>re.finditer(pattern, s)\<close>: the matches from left to right, without overlap, each
  with its start offset and the value built from its groups. A matcher gives the length
  of the match at the head of a text and that value.
\<close>

fun finditer :: "(string \<Rightarrow> (nat \<times> 'a) option) \<Rightarrow> nat \<Rightarrow> string \<Rightarrow> (nat \<times> 'a) list" where
  "finditer m pos [] = (case m [] of Some (n, v) \<Rightarrow> [(pos, v)] | None \<Rightarrow> [])"
| "finditer m pos (c # cs) =
     (case m (c # cs) of
        None \<Rightarrow> finditer m (Suc pos) cs
      | Some (n, v) \<Rightarrow>
          (pos, v) # (if n = 0 then finditer m (Suc pos) cs
                      else finditer m (pos + n) (drop n (c # cs))))"

text \<open>
  Parts of the definition patterns: \<open>\\[a-zA-Z]+\<close>, a backslash and the longest run of
  letters after it; a braced group \<open>\{([^}]+)\}\<close> that is not empty; and a literal.
\<close>

definition cs_name :: "string \<Rightarrow> (string \<times> string) option" where
  "cs_name s =
     (case s of
        [] \<Rightarrow> None
      | c # cs \<Rightarrow>
          if c = bsl \<and> takeWhile is_alpha cs \<noteq> []
          then Some (bsl # takeWhile is_alpha cs, dropWhile is_alpha cs) else None)"

definition braced_arg1 :: "string \<Rightarrow> (string \<times> string) option" where
  "braced_arg1 s =
     (case braced_arg s of
        None \<Rightarrow> None
      | Some (arg, rest) \<Rightarrow> if arg = [] then None else Some (arg, rest))"

definition expect :: "string \<Rightarrow> string \<Rightarrow> string option" where
  "expect p s = (if starts_with p s then Some (drop (length p) s) else None)"

text \<open>
  The tail \<open>\}\s*$\<close> of the first pattern, with \<open>re.MULTILINE\<close>: after the brace
  the greedy whitespace gives back characters until the position is the end of the
  text or stands before a newline.
\<close>

definition last_nl :: "string \<Rightarrow> nat option" where
  "last_nl ws =
     (case filter (\<lambda>j. ws ! j = nl) (rev [0..<length ws]) of [] \<Rightarrow> None | j # _ \<Rightarrow> Some j)"

definition ws_eol :: "string \<Rightarrow> nat option" where
  "ws_eol r =
     (let ws = takeWhile is_space r
      in if drop (length ws) r = [] then Some (length ws) else last_nl ws)"

definition close_eol :: "string \<Rightarrow> nat option" where
  "close_eol s =
     (case s of
        [] \<Rightarrow> None
      | c # r \<Rightarrow> if c = CHR ''}'' then map_option Suc (ws_eol r) else None)"

text \<open>
  The lazy group \<open>(.+?)\<close> before that tail: \<open>.\<close> matches no newline, and the group
  has at least one character.
\<close>

fun lazy_dot_until :: "(string \<Rightarrow> nat option) \<Rightarrow> string \<Rightarrow> (nat \<times> nat) option" where
  "lazy_dot_until tail [] = map_option (Pair 0) (tail [])"
| "lazy_dot_until tail (c # cs) =
     (case tail (c # cs) of
        Some n \<Rightarrow> Some (0, n)
      | None \<Rightarrow>
          if c = nl then None
          else map_option (\<lambda>(k, n). (Suc k, n)) (lazy_dot_until tail cs))"

definition lazy_dot_plus :: "(string \<Rightarrow> nat option) \<Rightarrow> string \<Rightarrow> (nat \<times> nat) option" where
  "lazy_dot_plus tail s =
     (case s of
        [] \<Rightarrow> None
      | c # cs \<Rightarrow>
          if c = nl then None
          else map_option (\<lambda>(k, n). (Suc k, n)) (lazy_dot_until tail cs))"

text \<open>
  The optional arity \<open>(?:\[(\d)\])?\<close>: \<open>int(m.group(2))\<close> when it matched, else 0.
\<close>

definition digit_arg :: "string \<Rightarrow> (nat \<times> string)" where
  "digit_arg s =
     (case s of
        a # d # b # rest \<Rightarrow>
          if a = CHR ''['' \<and> is_digit d \<and> b = CHR '']''
          then ((of_char d :: nat) - 48, rest) else (0, s)
      | _ \<Rightarrow> (0, s))"

text \<open>
  \<open>\\(?:re)?newcommand\{(\\[a-zA-Z]+)\}(?:\[(\d)\])?\{(.+?)\}\s*$\<close>.
\<close>

definition newcommand_matcher :: "string \<Rightarrow> (nat \<times> macro) option" where
  "newcommand_matcher s =
     (case (case expect (bsl # ''renewcommand{'') s of
              Some s1 \<Rightarrow> Some s1
            | None \<Rightarrow> expect (bsl # ''newcommand{'') s) of
        None \<Rightarrow> None
      | Some s1 \<Rightarrow>
          (case cs_name s1 of
             None \<Rightarrow> None
           | Some (name, s2) \<Rightarrow>
               (case expect ''}'' s2 of
                  None \<Rightarrow> None
                | Some s3 \<Rightarrow>
                    (case digit_arg s3 of (num_args, s4) \<Rightarrow>
                       (case expect ''{'' s4 of
                          None \<Rightarrow> None
                        | Some s5 \<Rightarrow>
                            (case lazy_dot_plus close_eol s5 of
                               None \<Rightarrow> None
                             | Some (k, n_tail) \<Rightarrow>
                                 Some (length s - length s5 + k + n_tail,
                                       (name, num_args, take k s5))))))))"

text \<open>
  \<open>\\DeclareMathOperator\{(\\[a-zA-Z]+)\}\{([^}]+)\}\<close>,
  \<open>\\DeclareDocumentCommand\\([a-zA-Z]+)\{\}\{([^}]+)\}\<close> and
  \<open>\\DeclarePairedDelimiter\\([a-zA-Z]+)\{([^}]+)\}\{([^}]+)\}\<close>.
\<close>

definition mathoperator_matcher :: "string \<Rightarrow> (nat \<times> macro) option" where
  "mathoperator_matcher s =
     (case expect (bsl # ''DeclareMathOperator{'') s of
        None \<Rightarrow> None
      | Some s1 \<Rightarrow>
          (case cs_name s1 of
             None \<Rightarrow> None
           | Some (name, s2) \<Rightarrow>
               (case expect ''}'' s2 of
                  None \<Rightarrow> None
                | Some s3 \<Rightarrow>
                    (case braced_arg1 s3 of
                       None \<Rightarrow> None
                     | Some (arg, rest) \<Rightarrow>
                         Some (length s - length rest,
                               (name, 0, bsl # ''operatorname{'' @ arg @ ''}''))))))"

definition documentcommand_matcher :: "string \<Rightarrow> (nat \<times> macro) option" where
  "documentcommand_matcher s =
     (case expect (bsl # ''DeclareDocumentCommand'') s of
        None \<Rightarrow> None
      | Some s1 \<Rightarrow>
          (case cs_name s1 of
             None \<Rightarrow> None
           | Some (name, s2) \<Rightarrow>
               (case expect ''{}'' s2 of
                  None \<Rightarrow> None
                | Some s3 \<Rightarrow>
                    (case braced_arg1 s3 of
                       None \<Rightarrow> None
                     | Some (arg, rest) \<Rightarrow>
                         Some (length s - length rest, (name, 0, arg))))))"

definition paireddelimiter_matcher :: "string \<Rightarrow> (nat \<times> macro) option" where
  "paireddelimiter_matcher s =
     (case expect (bsl # ''DeclarePairedDelimiter'') s of
        None \<Rightarrow> None
      | Some s1 \<Rightarrow>
          (case cs_name s1 of
             None \<Rightarrow> None
           | Some (name, s2) \<Rightarrow>
               (case braced_arg1 s2 of
                  None \<Rightarrow> None
                | Some (left, s3) \<Rightarrow>
                    (case braced_arg1 s3 of
                       None \<Rightarrow> None
                     | Some (right, rest) \<Rightarrow>
                         Some (length s - length rest,
                               (name, 1, bsl # ''left'' @ left @ '' #1 '' @ bsl # ''right'' @ right))))))"

text \<open>
  The four loops append to one list, in this order.
\<close>

definition parse_macros :: "string \<Rightarrow> macro list" where
  "parse_macros tex_source =
     map snd (finditer newcommand_matcher 0 tex_source) @
     map snd (finditer mathoperator_matcher 0 tex_source) @
     map snd (finditer documentcommand_matcher 0 tex_source) @
     map snd (finditer paireddelimiter_matcher 0 tex_source)"

text \<open>
  The macros of the preamble: the text before the first \<open>\begin{document}\<close>, or the
  whole text. The file is given by its content.
\<close>

definition load_file_macros :: "string \<Rightarrow> macro list" where
  "load_file_macros content =
     (case find_sub (bsl # ''begin{document}'') content of
        Some doc_start \<Rightarrow> parse_macros (take doc_start content)
      | None \<Rightarrow> parse_macros content)"

section \<open>Headings, cards and output rows\<close>

text \<open>
  A heading is \<open>(position, kind, title)\<close>. The pattern of \<open>find_sections\<close> is
  \<open>\\(section|subsection|subsubsection)\{([^}]+)\}\<close>; its alternatives are tried in
  order.
\<close>

type_synonym heading = "nat \<times> string \<times> string"

definition heading_alternative :: "string \<Rightarrow> string \<Rightarrow> (nat \<times> string \<times> string) option" where
  "heading_alternative kind s =
     (case expect (bsl # kind) s of
        None \<Rightarrow> None
      | Some s1 \<Rightarrow>
          (case braced_arg1 s1 of
             None \<Rightarrow> None
           | Some (title, rest) \<Rightarrow> Some (length s - length rest, kind, title)))"

definition section_matcher :: "string \<Rightarrow> (nat \<times> string \<times> string) option" where
  "section_matcher s =
     (case heading_alternative ''section'' s of
        Some r \<Rightarrow> Some r
      | None \<Rightarrow>
          (case heading_alternative ''subsection'' s of
             Some r \<Rightarrow> Some r
           | None \<Rightarrow> heading_alternative ''subsubsection'' s))"

definition find_sections :: "string \<Rightarrow> heading list" where
  "find_sections tex_content = finditer section_matcher 0 tex_content"

text \<open>
  \<open>hierarchy.index(sec_type)\<close> raises \<open>ValueError\<close> for a kind that is not in the
  hierarchy.
\<close>

datatype error = ValueError

definition hierarchy :: "string list" where
  "hierarchy = [''section'', ''subsection'', ''subsubsection'']"

fun list_index :: "'a \<Rightarrow> 'a list \<Rightarrow> nat option" where
  "list_index x [] = None"
| "list_index x (y # ys) = (if x = y then Some 0 else map_option Suc (list_index x ys))"

text \<open>
  The body of the loop of \<open>get_section_context\<close>: the title is stored under the kind,
  then the kinds after it in the hierarchy are removed. The dictionary \<open>current\<close> is a
  map.
\<close>

definition set_heading :: "string \<Rightarrow> string \<Rightarrow> (string \<rightharpoonup> string) \<Rightarrow> error + (string \<rightharpoonup> string)" where
  "set_heading sec_type sec_title current =
     (let current = current(sec_type \<mapsto> sec_title)
      in case list_index sec_type hierarchy of
           None \<Rightarrow> Inl ValueError
         | Some idx \<Rightarrow>
             Inr (fold (\<lambda>lower cur. cur(lower := None)) (drop (idx + 1) hierarchy) current))"

text \<open>
  The loop stops at the first heading after the position (\<open>break\<close>).
\<close>

fun context_loop :: "nat \<Rightarrow> heading list \<Rightarrow> (string \<rightharpoonup> string) \<Rightarrow> error + (string \<rightharpoonup> string)" where
  "context_loop pos [] current = Inr current"
| "context_loop pos ((sec_pos, sec_type, sec_title) # rest) current =
     (if sec_pos > pos then Inr current
      else (case set_heading sec_type sec_title current of
              Inl e \<Rightarrow> Inl e
            | Inr current' \<Rightarrow> context_loop pos rest current'))"

definition context_string :: "(string \<rightharpoonup> string) \<Rightarrow> string" where
  "context_string current = join '' > '' (List.map_filter current hierarchy)"

definition get_section_context :: "nat \<Rightarrow> heading list \<Rightarrow> error + string" where
  "get_section_context pos sections =
     (case context_loop pos sections Map.empty of
        Inl e \<Rightarrow> Inl e
      | Inr current \<Rightarrow> Inr (context_string current))"

text \<open>
  \<open>re.match\<close> of \<open>\s*\(([^)]+)\)\<close> at the start of the body. The title is
  \<open>None\<close> when there is no match.
\<close>

definition extract_title_from_body :: "string \<Rightarrow> string option \<times> string" where
  "extract_title_from_body body =
     (case dropWhile is_space body of
        [] \<Rightarrow> (None, body)
      | c # cs \<Rightarrow>
          if c = CHR ''('' \<and> takeWhile (\<lambda>x. x \<noteq> CHR '')'') cs \<noteq> [] then
            (case dropWhile (\<lambda>x. x \<noteq> CHR '')'') cs of
               [] \<Rightarrow> (None, body)
             | _ # rest \<Rightarrow> (Some (strip (takeWhile (\<lambda>x. x \<noteq> CHR '')'') cs)), strip rest))
          else (None, body))"

definition sanitize_tag :: "string \<Rightarrow> string" where
  "sanitize_tag text = replace_all ''&'' ''and'' (replace_all '','' [] (replace_all '' '' ''_'' text))"

text \<open>
  \<open>str.capitalize\<close> on the letters a to z, which the entries of \<open>ENV_TYPES\<close> are
  made of.
\<close>

definition to_upper :: "char \<Rightarrow> char" where
  "to_upper c = (let n = (of_char c :: nat) in if 97 \<le> n \<and> n \<le> 122 then char_of (n - 32) else c)"

definition to_lower :: "char \<Rightarrow> char" where
  "to_lower c = (let n = (of_char c :: nat) in if 65 \<le> n \<and> n \<le> 90 then char_of (n + 32) else c)"

definition capitalize :: "string \<Rightarrow> string" where
  "capitalize s = (case s of [] \<Rightarrow> [] | c # cs \<Rightarrow> to_upper c # map to_lower cs)"

text \<open>
  \<open>s.split(sep)[0]\<close>: the text before the first separator.
\<close>

definition split_first :: "string \<Rightarrow> string \<Rightarrow> string" where
  "split_first sep s = (case find_sub sep s of None \<Rightarrow> s | Some i \<Rightarrow> take i s)"

type_synonym card = "string \<times> string \<times> string"

text \<open>
  The body of the loop of \<open>process_file\<close> for one block. A title that is \<open>None\<close>
  or empty is not true in \<open>if title\<close>.
\<close>

definition make_card :: "string \<Rightarrow> macro list \<Rightarrow> heading list \<Rightarrow> block \<Rightarrow> error + card" where
  "make_card course all_macros sections blk =
     (case blk of (env_type, body, pos) \<Rightarrow>
        (case extract_title_from_body body of (title, clean_body) \<Rightarrow>
           (let clean_body = expand_macros clean_body all_macros;
                title = (case title of
                           None \<Rightarrow> None
                         | Some t \<Rightarrow> if t \<noteq> [] then Some (expand_macros t all_macros) else Some t)
            in case get_section_context pos sections of
                 Inl e \<Rightarrow> Inl e
               | Inr section_ctx \<Rightarrow>
                   (let type_label = capitalize env_type;
                        front =
                          (case title of
                             Some t \<Rightarrow>
                               if t \<noteq> [] then ''<b>'' @ type_label @ ''</b>: '' @ t
                               else ''<b>'' @ type_label @ ''</b>'' @
                                    (if section_ctx \<noteq> [] then '' ('' @ section_ctx @ '')'' else [])
                           | None \<Rightarrow>
                               ''<b>'' @ type_label @ ''</b>'' @
                               (if section_ctx \<noteq> [] then '' ('' @ section_ctx @ '')'' else []));
                        front = front @ ''<br><i>['' @ course @ '']</i>'';
                        back = latex_to_anki_mathjax clean_body;
                        tags = [sanitize_tag course, sanitize_tag env_type] @
                               (if section_ctx \<noteq> []
                                then [sanitize_tag (split_first '' > '' section_ctx)] else []);
                        tag_str = join '' '' tags
                    in Inr (front, back, tag_str)))))"

text \<open>
  The loop over the blocks: the first error ends it.
\<close>

fun collect :: "('a \<Rightarrow> error + 'b) \<Rightarrow> 'a list \<Rightarrow> error + 'b list" where
  "collect f [] = Inr []"
| "collect f (x # xs) =
     (case f x of
        Inl e \<Rightarrow> Inl e
      | Inr y \<Rightarrow> (case collect f xs of Inl e \<Rightarrow> Inl e | Inr ys \<Rightarrow> Inr (y # ys)))"

text \<open>
  \<open>process_file\<close>, from the course name (the name of the directory) and the content of
  the file.
\<close>

definition process_file :: "string \<Rightarrow> string \<Rightarrow> macro list \<Rightarrow> error + card list" where
  "process_file course content global_macros =
     (let file_macros = load_file_macros content;
          all_macros = global_macros @ file_macros;
          sections = find_sections content;
          environments = find_environments content ENV_TYPES
      in collect (make_card course all_macros sections) environments)"

text \<open>
  One data row as \<open>main\<close> writes it, the four header lines, and the lines of the
  output file.
\<close>

definition format_row :: "card \<Rightarrow> string" where
  "format_row crd =
     (case crd of (front, back, tags) \<Rightarrow>
        (let front_clean = replace_all [tab] '' '' front;
             back_clean = replace_all [tab] '' '' back
         in front_clean @ [tab] @ back_clean @ [tab] @ tags @ [nl]))"

definition output_header :: "string list" where
  "output_header =
     [''#separator:tab'' @ [nl], ''#html:true'' @ [nl], ''#tags column:3'' @ [nl],
      ''#deck:Lecture Notes'' @ [nl]]"

definition output_file :: "card list \<Rightarrow> string list" where
  "output_file all_cards = output_header @ map format_row all_cards"

text \<open>Running a loop body at most \<open>n\<close> times; \<open>None\<close> when the loop has not ended by then.\<close>

fun iterate :: "nat \<Rightarrow> ('s \<Rightarrow> 's option) \<Rightarrow> 's \<Rightarrow> 's option" where
  "iterate 0 step s = None"
| "iterate (Suc n) step s = (case step s of None \<Rightarrow> Some s | Some s' \<Rightarrow> iterate n step s')"

section \<open>Termination of the block extractor\<close>

lemma iterate_inner_loop:
  "length tex - fst (snd st) < n \<Longrightarrow>
     iterate n (inner_step tex env) st = Some (inner_loop tex env st)"
proof (induction n arbitrary: st)
  case 0
  then show ?case by simp
next
  case (Suc n)
  show ?case
  proof (cases "inner_step tex env st")
    case None
    then show ?thesis by (simp add: inner_loop.simps [of tex env st])
  next
    case (Some st')
    obtain d sp ep where st: "st = (d, sp, ep)" by (cases st)
    obtain d' sp' ep' where st': "st' = (d', sp', ep')" by (cases st')
    from inner_step_progress [of tex env d sp ep d' sp' ep'] Some st st'
    have "sp < sp'" "sp' \<le> length tex" by auto
    with Suc.prems st have "length tex - fst (snd st') < n" using st' by simp
    from Suc.IH [OF this] Some show ?thesis by (simp add: inner_loop.simps [of tex env st])
  qed
qed

lemma iterate_outer_loop:
  "length tex - fst st < n \<Longrightarrow>
     iterate n (outer_step tex env) st = Some (outer_loop tex env st)"
proof (induction n arbitrary: st)
  case 0
  then show ?case by simp
next
  case (Suc n)
  show ?case
  proof (cases "outer_step tex env st")
    case None
    then show ?thesis by (simp add: outer_loop.simps [of tex env st])
  next
    case (Some st')
    obtain pos rs where st: "st = (pos, rs)" by (cases st)
    obtain pos' rs' where st': "st' = (pos', rs')" by (cases st')
    from outer_step_progress [of tex env pos rs pos' rs'] Some st st'
    have "pos < pos'" "pos' \<le> length tex" by auto
    with Suc.prems st have "length tex - fst st' < n" using st' by simp
    from Suc.IH [OF this] Some show ?thesis by (simp add: outer_loop.simps [of tex env st])
  qed
qed

text \<open>
  Claim C10. The block extractor terminates on every text. Each iteration of the inner
  nesting scan either leaves the loop or strictly increases \<open>search_pos\<close>, which stays
  within the text; each iteration of the outer scan either leaves the loop or moves
  \<open>pos\<close> strictly forward, past the open marker it found, and stays within the text.
  Hence both loops end after at most \<open>length tex + 1\<close> iterations, from every state,
  with the value of the loop.
\<close>

theorem find_environments_terminates:
  "(inner_step tex env (depth, search_pos, end_pos) = Some (depth', search_pos', end_pos')
      \<longrightarrow> search_pos < search_pos' \<and> search_pos' \<le> length tex) \<and>
   (outer_step tex env (pos, results) = Some (pos', results')
      \<longrightarrow> pos < pos' \<and> pos' \<le> length tex) \<and>
   iterate (Suc (length tex)) (inner_step tex env) (depth, search_pos, end_pos)
     = Some (inner_loop tex env (depth, search_pos, end_pos)) \<and>
   iterate (Suc (length tex)) (outer_step tex env) (pos, results)
     = Some (outer_loop tex env (pos, results))"
  using inner_step_progress [of tex env depth search_pos end_pos depth' search_pos' end_pos']
    outer_step_progress [of tex env pos results pos' results']
    iterate_inner_loop [of tex "(depth, search_pos, end_pos)" "Suc (length tex)" env]
    iterate_outer_loop [of tex "(pos, results)" "Suc (length tex)" env]
  by simp

lemma inner_step_example:
  "inner_step (bsl # ''begin{lemma}a'' @ bsl # ''end{lemma}'') ''lemma'' (1, 13, None)
     = Some (0, 25, Some 14)"
  by code_simp

lemma outer_step_example:
  "outer_step (bsl # ''begin{lemma}a'' @ bsl # ''end{lemma}'') ''lemma'' (0, [])
     = Some (13, [(''lemma'', ''a'', 0)])"
  by code_simp

theorem find_environments_terminates_witness:
  "inner_step (bsl # ''begin{lemma}a'' @ bsl # ''end{lemma}'') ''lemma'' (1, 13, None)
     = Some (0, 25, Some 14) \<and>
   (13::nat) < 25 \<and> (25::nat) \<le> length (bsl # ''begin{lemma}a'' @ bsl # ''end{lemma}'') \<and>
   outer_step (bsl # ''begin{lemma}a'' @ bsl # ''end{lemma}'') ''lemma'' (0, [])
     = Some (13, [(''lemma'', ''a'', 0)]) \<and>
   (0::nat) < 13 \<and> (13::nat) \<le> length (bsl # ''begin{lemma}a'' @ bsl # ''end{lemma}'') \<and>
   iterate (Suc (length (bsl # ''begin{lemma}a'' @ bsl # ''end{lemma}'')))
       (inner_step (bsl # ''begin{lemma}a'' @ bsl # ''end{lemma}'') ''lemma'') (1, 13, None)
     = Some (inner_loop (bsl # ''begin{lemma}a'' @ bsl # ''end{lemma}'') ''lemma'' (1, 13, None)) \<and>
   iterate (Suc (length (bsl # ''begin{lemma}a'' @ bsl # ''end{lemma}'')))
       (outer_step (bsl # ''begin{lemma}a'' @ bsl # ''end{lemma}'') ''lemma'') (0, [])
     = Some (outer_loop (bsl # ''begin{lemma}a'' @ bsl # ''end{lemma}'') ''lemma'' (0, []))"
  using find_environments_terminates [of "bsl # ''begin{lemma}a'' @ bsl # ''end{lemma}''"
      "''lemma''" 1 13 None 0 25 "Some 14" 0 "[]" 13 "[(''lemma'', ''a'', 0)]"]
    inner_step_example outer_step_example
  by simp

section \<open>Heading context\<close>

text \<open>
  The lookup as the specification words it: a rank is deeper than another when it comes
  later in the hierarchy; setting a title clears the strictly deeper ranks; the lookup
  folds over the headings at or before the position.
\<close>

definition deeper :: "string \<Rightarrow> string \<Rightarrow> bool" where
  "deeper k r =
     (case (list_index k hierarchy, list_index r hierarchy) of
        (Some i, Some j) \<Rightarrow> j < i
      | _ \<Rightarrow> False)"

definition spec_set_title :: "heading \<Rightarrow> (string \<rightharpoonup> string) \<Rightarrow> (string \<rightharpoonup> string)" where
  "spec_set_title h current =
     (case h of (p, r, title) \<Rightarrow>
        (\<lambda>k. if k = r then Some title else if deeper k r then None else current k))"

definition spec_context :: "nat \<Rightarrow> heading list \<Rightarrow> string" where
  "spec_context P sections =
     context_string (fold spec_set_title (filter (\<lambda>h. fst h \<le> P) sections) Map.empty)"

lemma set_heading_spec:
  assumes "r \<in> set hierarchy"
  shows "set_heading r title current = Inr (spec_set_title (p, r, title) current)"
proof -
  from assms consider "r = ''section''" | "r = ''subsection''" | "r = ''subsubsection''"
    by (auto simp: hierarchy_def)
  then show ?thesis
  proof cases
    case 1
    then show ?thesis
      by (auto simp: set_heading_def spec_set_title_def hierarchy_def deeper_def fun_eq_iff)
  next
    case 2
    then show ?thesis
      by (auto simp: set_heading_def spec_set_title_def hierarchy_def deeper_def fun_eq_iff)
  next
    case 3
    then show ?thesis
      by (auto simp: set_heading_def spec_set_title_def hierarchy_def deeper_def fun_eq_iff)
  qed
qed

lemma context_loop_spec:
  assumes "sorted (map fst sections)" and "\<forall>h \<in> set sections. fst (snd h) \<in> set hierarchy"
  shows "context_loop P sections current
           = Inr (fold spec_set_title (filter (\<lambda>h. fst h \<le> P) sections) current)"
  using assms
proof (induction sections arbitrary: current)
  case Nil
  then show ?case by simp
next
  case (Cons h rest)
  obtain p r t where h: "h = (p, r, t)" by (cases h)
  show ?case
  proof (cases "p > P")
    case True
    with Cons.prems(1) h have "\<forall>x \<in> set rest. \<not> fst x \<le> P" by fastforce
    then have "filter (\<lambda>h. fst h \<le> P) rest = []" by (simp add: filter_empty_conv)
    with True h show ?thesis by simp
  next
    case False
    from Cons.prems(2) h have r: "r \<in> set hierarchy" by simp
    from Cons.prems have "sorted (map fst rest)" "\<forall>h \<in> set rest. fst (snd h) \<in> set hierarchy"
      by simp_all
    from Cons.IH [OF this] False h set_heading_spec [OF r, of t current p]
    show ?thesis by simp
  qed
qed

lemma finditer_sorted_aux:
  "sorted (map fst (finditer m pos s)) \<and> (\<forall>x \<in> set (finditer m pos s). pos \<le> fst x)"
proof (induction m pos s rule: finditer.induct)
  case (1 m pos)
  then show ?case by (auto split: option.splits)
next
  case (2 m pos c cs)
  show ?case
  proof (cases "m (c # cs)")
    case None
    with 2(1) show ?thesis by fastforce
  next
    case (Some a)
    obtain n v where a: "a = (n, v)" by (cases a)
    show ?thesis
    proof (cases "n = 0")
      case True
      with 2(2) [OF Some a [symmetric]] Some a show ?thesis by fastforce
    next
      case False
      with 2(3) [OF Some a [symmetric]] Some a show ?thesis by fastforce
    qed
  qed
qed

lemma section_matcher_kind:
  "section_matcher s = Some (n, kind, title) \<Longrightarrow> kind \<in> set hierarchy"
  by (auto simp: section_matcher_def heading_alternative_def hierarchy_def
      split: option.splits if_splits)

lemma finditer_values:
  "(p, v) \<in> set (finditer m pos s) \<Longrightarrow> \<exists>t n. m t = Some (n, v)"
proof (induction m pos s rule: finditer.induct)
  case (1 m pos)
  then show ?case by (cases "m []") (auto intro: exI [of _ "[]"])
next
  case (2 m pos c cs)
  show ?case
  proof (cases "m (c # cs)")
    case None
    with 2(1) 2(4) show ?thesis by simp
  next
    case (Some a)
    obtain n w where a: "a = (n, w)" by (cases a)
    show ?thesis
    proof (cases "(p, v) = (pos, w)")
      case True
      with Some a show ?thesis by auto
    next
      case False
      show ?thesis
      proof (cases "n = 0")
        case True
        with 2(2) [OF Some a [symmetric]] 2(4) Some a False show ?thesis by auto
      next
        case n: False
        with 2(3) [OF Some a [symmetric]] 2(4) Some a False show ?thesis by auto
      qed
    qed
  qed
qed

lemma find_sections_kinds: "\<forall>h \<in> set (find_sections tex). fst (snd h) \<in> set hierarchy"
proof
  fix h assume "h \<in> set (find_sections tex)"
  then have m: "h \<in> set (finditer section_matcher 0 tex)"
    by (simp only: find_sections_def)
  obtain p k t where h: "h = (p, k, t)" by (cases h)
  from finditer_values [of p "(k, t)" section_matcher 0 tex] m h
  obtain u n where "section_matcher u = Some (n, k, t)" by blast
  from section_matcher_kind [OF this] h show "fst (snd h) \<in> set hierarchy" by simp
qed

text \<open>
  Claim C6. On a heading list ordered by position whose kinds are the three heading kinds
  (as \<open>find_sections\<close> returns it), the context lookup at position \<open>P\<close> is the fold over
  exactly the headings with position at most \<open>P\<close>, where setting the title of a rank keeps
  the shallower ranks and clears every strictly deeper one; the titles that are set are
  joined in rank order. For the headings Ch1 at 0, S1 at 10 and S2 at 20 (the last two of
  the middle rank) the lookup gives \<open>Ch1 > S1\<close> at 15 and \<open>Ch1 > S2\<close> at 25.
\<close>

theorem get_section_context_fold:
  "(sorted (map fst sections) \<and> (\<forall>h \<in> set sections. fst (snd h) \<in> set hierarchy)
      \<longrightarrow> get_section_context P sections = Inr (spec_context P sections)) \<and>
   get_section_context P (find_sections tex) = Inr (spec_context P (find_sections tex)) \<and>
   get_section_context 15 [(0, ''section'', ''Ch1''), (10, ''subsection'', ''S1''),
      (20, ''subsection'', ''S2'')] = Inr ''Ch1 > S1'' \<and>
   get_section_context 25 [(0, ''section'', ''Ch1''), (10, ''subsection'', ''S1''),
      (20, ''subsection'', ''S2'')] = Inr ''Ch1 > S2''"
proof -
  have a: "sorted (map fst sections) \<and> (\<forall>h \<in> set sections. fst (snd h) \<in> set hierarchy)
      \<longrightarrow> get_section_context P sections = Inr (spec_context P sections)"
    by (simp add: get_section_context_def spec_context_def context_loop_spec)
  have "sorted (map fst (find_sections tex))"
    using finditer_sorted_aux [of section_matcher 0 tex] by (simp add: find_sections_def)
  then have b: "get_section_context P (find_sections tex) = Inr (spec_context P (find_sections tex))"
    using find_sections_kinds [of tex]
    by (simp add: get_section_context_def spec_context_def context_loop_spec)
  have c: "get_section_context 15 [(0, ''section'', ''Ch1''), (10, ''subsection'', ''S1''),
      (20, ''subsection'', ''S2'')] = Inr ''Ch1 > S1''"
    by (simp add: get_section_context_def set_heading_def hierarchy_def context_string_def
        List.map_filter_def)
  have d: "get_section_context 25 [(0, ''section'', ''Ch1''), (10, ''subsection'', ''S1''),
      (20, ''subsection'', ''S2'')] = Inr ''Ch1 > S2''"
    by (simp add: get_section_context_def set_heading_def hierarchy_def context_string_def
        List.map_filter_def)
  from a b c d show ?thesis by blast
qed

theorem get_section_context_fold_witness:
  "sorted (map fst [(0, ''section'', ''Ch1''), (10, ''subsection'', ''S1''),
      (20 :: nat, ''subsection'', ''S2'')]) \<and>
   list_all (\<lambda>h. fst (snd h) \<in> set hierarchy) [(0 :: nat, ''section'', ''Ch1''),
      (10, ''subsection'', ''S1''), (20, ''subsection'', ''S2'')] \<and>
   get_section_context 15 [(0, ''section'', ''Ch1''), (10, ''subsection'', ''S1''),
      (20, ''subsection'', ''S2'')]
     = Inr (spec_context 15 [(0, ''section'', ''Ch1''), (10, ''subsection'', ''S1''),
      (20, ''subsection'', ''S2'')])"
  using get_section_context_fold [of "[(0, ''section'', ''Ch1''), (10, ''subsection'', ''S1''),
      (20, ''subsection'', ''S2'')]" 15 "[]"]
  by (simp add: hierarchy_def)


section \<open>Whitespace normalization\<close>

text \<open>
  Claim C7, at the text \<open>bar\<close>. The step \<open>text.strip('<br>')\<close> removes every leading and
  trailing character that is one of \<open><\<close>, \<open>b\<close>, \<open>r\<close>, \<open>>\<close>, not only whole markers: the
  normalization of \<open>bar\<close> is \<open>a\<close>, and the converter turns \<open>x is a number\<close> into
  \<open>x is a numbe\<close>.
\<close>

theorem normalize_whitespace_strips_letters:
  "normalize_whitespace ''bar'' = ''a'' \<and>
   latex_to_anki_mathjax ''x is a number'' = ''x is a numbe''"
  by code_simp

section \<open>Output rows\<close>

definition count_tabs :: "string \<Rightarrow> nat" where
  "count_tabs s = length (filter (\<lambda>c. c = tab) s)"

text \<open>
  Claim C8, at a document whose section title holds a tab. The title reaches the tags
  column through the heading context; the row keeps that tab, since only the front and
  the back are cleaned, and so holds three tabs.
\<close>

theorem format_row_keeps_tabs_in_tags:
  "process_file ''C''
      (bsl # ''section{A'' @ [tab] @ ''B}'' @ bsl # ''begin{lemma}x'' @ bsl # ''end{lemma}'') []
     = Inr [(''<b>Lemma</b> (A'' @ [tab] @ ''B)<br><i>[C]</i>'', ''x'', ''C lemma A'' @ [tab] @ ''B'')] \<and>
   format_row (''<b>Lemma</b> (A'' @ [tab] @ ''B)<br><i>[C]</i>'', ''x'', ''C lemma A'' @ [tab] @ ''B'')
     = ''<b>Lemma</b> (A B)<br><i>[C]</i>'' @ [tab] @ ''x'' @ [tab] @ ''C lemma A'' @ [tab] @ ''B'' @ [nl] \<and>
   count_tabs (format_row
      (''<b>Lemma</b> (A'' @ [tab] @ ''B)<br><i>[C]</i>'', ''x'', ''C lemma A'' @ [tab] @ ''B'')) = 3"
  by code_simp

section \<open>Macros of arity above 2\<close>

lemma starts_with_append: "starts_with p (p @ s)"
  by (induction p) auto

lemma expect_append: "expect p (p @ s) = Some s"
  by (simp add: expect_def starts_with_append)

lemma expect_mismatch: "a \<noteq> b \<Longrightarrow> expect (x # a # p) (x # b # s) = None"
  by (simp add: expect_def)

lemma cs_name_letters:
  assumes "L \<noteq> []" "\<forall>c \<in> set L. is_alpha c" "\<not> is_alpha c"
  shows "cs_name (bsl # L @ c # rest) = Some (bsl # L, c # rest)"
proof -
  from assms(2,3) have "takeWhile is_alpha (L @ c # rest) = L"
    by (induction L) auto
  moreover from assms(2,3) have "dropWhile is_alpha (L @ c # rest) = c # rest"
    by (induction L) auto
  ultimately show ?thesis using assms(1) by (simp add: cs_name_def)
qed

lemma last_nl_none: "nl \<notin> set ws \<Longrightarrow> last_nl ws = None"
proof -
  assume a: "nl \<notin> set ws"
  have "filter (\<lambda>j. ws ! j = nl) (rev [0..<length ws]) = []"
    using a by (auto simp: filter_empty_conv) (metis nth_mem)
  then show ?thesis by (simp add: last_nl_def)
qed

lemma ws_eol_none:
  assumes "nl \<notin> set b"
  shows "ws_eol (b @ ''}'') = None"
proof -
  let ?ws = "takeWhile is_space (b @ ''}'')"
  have sp: "\<not> is_space (CHR ''}'')" by (simp add: is_space_def)
  have ws: "?ws = takeWhile is_space b"
    using sp by (induction b) auto
  then have "length ?ws \<le> length b" by (simp add: length_takeWhile_le)
  then have d: "drop (length ?ws) (b @ ''}'') \<noteq> []" by simp
  have "nl \<notin> set ?ws" unfolding ws using assms set_takeWhileD [of nl is_space b] by blast
  from last_nl_none [OF this] d show ?thesis by (simp add: ws_eol_def Let_def)
qed

lemma close_eol_inside:
  assumes "nl \<notin> set b"
  shows "close_eol (c # b @ ''}'') = None"
  using ws_eol_none [OF assms] by (simp add: close_eol_def)

lemma close_eol_last: "close_eol ''}'' = Some 1"
  by (simp add: close_eol_def ws_eol_def)

lemma lazy_dot_until_body:
  assumes "nl \<notin> set body"
  shows "lazy_dot_until close_eol (body @ ''}'') = Some (length body, 1)"
  using assms
proof (induction body)
  case Nil
  then show ?case by (simp add: close_eol_last)
next
  case (Cons c b)
  then have "nl \<notin> set b" "c \<noteq> nl" by auto
  with Cons.IH close_eol_inside [of b c] show ?case by simp
qed

lemma lazy_dot_plus_body:
  assumes "body \<noteq> []" "nl \<notin> set body"
  shows "lazy_dot_plus close_eol (body @ ''}'') = Some (length body, 1)"
proof -
  from assms obtain c b where b: "body = c # b" by (cases body) auto
  with assms(2) have "nl \<notin> set b" "c \<noteq> nl" by auto
  with lazy_dot_until_body [of b] b show ?thesis by (simp add: lazy_dot_plus_def)
qed

text \<open>The text of one definition \<open>\newcommand{\letters}[d]{body}\<close>.\<close>

definition newcommand_line :: "string \<Rightarrow> char \<Rightarrow> string \<Rightarrow> string" where
  "newcommand_line letters d body =
     bsl # ''newcommand{'' @ (bsl # letters) @ ''}'' @ (CHR ''['' # d # '']'') @ ''{'' @ body @ ''}''"

lemma newcommand_matcher_line:
  assumes "letters \<noteq> []" "\<forall>c \<in> set letters. is_alpha c" "is_digit d"
    and "body \<noteq> []" "nl \<notin> set body"
  shows "newcommand_matcher (newcommand_line letters d body)
           = Some (length (newcommand_line letters d body),
                   (bsl # letters, (of_char d :: nat) - 48, body))"
proof -
  let ?s = "newcommand_line letters d body"
  let ?t = "CHR ''}'' # CHR ''['' # d # CHR '']'' # CHR ''{'' # body @ ''}''"
  have s: "?s = bsl # ''newcommand{'' @ bsl # letters @ ?t"
    by (simp add: newcommand_line_def)
  have e1: "expect (bsl # ''renewcommand{'') ?s = None"
    by (simp add: newcommand_line_def expect_def)
  have e2: "expect (bsl # ''newcommand{'') ?s = Some (bsl # letters @ ?t)"
    using expect_append [of "bsl # ''newcommand{''" "bsl # letters @ ?t"] by (simp add: s)
  have e3: "cs_name (bsl # letters @ ?t) = Some (bsl # letters, ?t)"
    by (rule cs_name_letters [OF assms(1,2)]) (simp add: is_alpha_def)
  have e4: "expect ''}'' ?t = Some (CHR ''['' # d # CHR '']'' # CHR ''{'' # body @ ''}'')"
    by (simp add: expect_def)
  have e5: "digit_arg (CHR ''['' # d # CHR '']'' # CHR ''{'' # body @ ''}'')
      = ((of_char d :: nat) - 48, CHR ''{'' # body @ ''}'')"
    using assms(3) by (simp add: digit_arg_def)
  have e6: "expect ''{'' (CHR ''{'' # body @ ''}'') = Some (body @ ''}'')"
    by (simp add: expect_def)
  have len: "length ?s - length (body @ ''}'') + length body + 1 = length ?s"
    by (simp add: newcommand_line_def)
  show ?thesis
    unfolding newcommand_matcher_def e1 e2
    using len by (simp add: e3 e4 e5 e6 lazy_dot_plus_body [OF assms(4,5)])
qed

lemma finditer_head:
  "m s = Some (n, v) \<Longrightarrow> (pos, v) \<in> set (finditer m pos s)"
  by (cases s) auto

lemma apply_macro_high_arity: "2 < k \<Longrightarrow> apply_macro (name, k, r) text = text"
  by (simp add: apply_macro_def)

lemma expand_pass_high_arity:
  "2 < k \<Longrightarrow> expand_pass (ms1 @ (name, k, r) # ms2) text = expand_pass (ms1 @ ms2) text"
  by (simp add: expand_pass_def apply_macro_high_arity)

text \<open>
  Claim C9. A definition \<open>\newcommand{\name}[d]{body}\<close> is recorded by \<open>parse_macros\<close>
  with the arity its digit \<open>d\<close> gives, whatever the digit, so also with an arity above 2.
  A macro with an arity above 2 is never applied: applying it leaves every text
  unchanged, and \<open>expand_macros\<close> gives the same result with the macro in the list as
  without it. The model has no error or warning value to produce.
\<close>

theorem high_arity_recorded_never_applied:
  "(letters \<noteq> [] \<and> (\<forall>c \<in> set letters. is_alpha c) \<and> is_digit d \<and> body \<noteq> [] \<and> nl \<notin> set body
      \<longrightarrow> (bsl # letters, (of_char d :: nat) - 48, body)
            \<in> set (parse_macros (newcommand_line letters d body))) \<and>
   (2 < k \<longrightarrow> apply_macro (name, k, r) text = text \<and>
      expand_macros text [(name, k, r)] = text \<and>
      expand_macros text (ms1 @ (name, k, r) # ms2) = expand_macros text (ms1 @ ms2))"
proof -
  have a: "letters \<noteq> [] \<and> (\<forall>c \<in> set letters. is_alpha c) \<and> is_digit d \<and> body \<noteq> [] \<and> nl \<notin> set body
      \<longrightarrow> (bsl # letters, (of_char d :: nat) - 48, body)
            \<in> set (parse_macros (newcommand_line letters d body))"
  proof (intro impI, elim conjE)
    assume h: "letters \<noteq> []" "\<forall>c \<in> set letters. is_alpha c" "is_digit d" "body \<noteq> []"
      "nl \<notin> set body"
    from finditer_head [of newcommand_matcher "newcommand_line letters d body" _ _ 0]
      newcommand_matcher_line [OF h]
    show "(bsl # letters, (of_char d :: nat) - 48, body)
            \<in> set (parse_macros (newcommand_line letters d body))"
      by (force simp: parse_macros_def)
  qed
  have b: "2 < k \<longrightarrow> apply_macro (name, k, r) text = text \<and>
      expand_macros text [(name, k, r)] = text \<and>
      expand_macros text (ms1 @ (name, k, r) # ms2) = expand_macros text (ms1 @ ms2)"
    using expand_pass_high_arity [of k "[]" name r "[]"]
    by (simp add: expand_macros_def expand_pass_high_arity apply_macro_high_arity)
       (simp add: expand_pass_def)
  from a b show ?thesis by blast
qed

theorem high_arity_recorded_never_applied_witness:
  "(''foo'' \<noteq> [] \<and> list_all is_alpha ''foo'' \<and> is_digit (CHR ''3'') \<and>
    ''a#1#2#3'' \<noteq> [] \<and> nl \<notin> set ''a#1#2#3'') \<and>
   (bsl # ''foo'', 3, ''a#1#2#3'') \<in> set (parse_macros (newcommand_line ''foo'' (CHR ''3'') ''a#1#2#3'')) \<and>
   (2 :: nat) < 3 \<and>
   apply_macro (bsl # ''foo'', 3, ''a#1#2#3'') (bsl # ''foo{x}{y}{z}'') = bsl # ''foo{x}{y}{z}'' \<and>
   expand_macros (bsl # ''foo{x}{y}{z}'') [(bsl # ''foo'', 3, ''a#1#2#3'')] = bsl # ''foo{x}{y}{z}''"
  using high_arity_recorded_never_applied [of "''foo''" "CHR ''3''" "''a#1#2#3''" 3
      "bsl # ''foo''" "''a#1#2#3''" "bsl # ''foo{x}{y}{z}''" "[]" "[]"]
  by (simp add: is_alpha_def is_digit_def)

section \<open>Patterns that match nowhere\<close>

text \<open>A pattern that matches at no position of a text.\<close>

fun never_matches :: "matcher \<Rightarrow> char option \<Rightarrow> string \<Rightarrow> bool" where
  "never_matches m prev [] = (m prev [] = None)"
| "never_matches m prev (c # cs) = (m prev (c # cs) = None \<and> never_matches m (Some c) cs)"

lemma re_sub_never_matches: "never_matches m prev s \<Longrightarrow> re_sub m prev s = s"
  by (induction s arbitrary: prev) auto

section \<open>Fixed points of macro expansion\<close>

text \<open>
  A text holds no reference to the arity-0 macro \<open>name\<close>: the pattern of the macro (the
  name, not followed by a letter) matches at no position of it.
\<close>

definition macro_free :: "string \<Rightarrow> string \<Rightarrow> bool" where
  "macro_free name s = never_matches (macro0_matcher name []) None s"

text \<open>A macro name as \<open>parse_macros\<close> records it: a backslash followed by letters.\<close>

definition control_word :: "string \<Rightarrow> bool" where
  "control_word name = (case name of [] \<Rightarrow> False | c # letters \<Rightarrow> c = bsl \<and> list_all is_alpha letters)"

text \<open>
  A macro list of arity-0 macros with such names, in which no template begins with a
  letter and no template holds a reference to a macro of the list.
\<close>

definition plain_macros :: "macro list \<Rightarrow> bool" where
  "plain_macros macros =
     list_all (\<lambda>(name, num_args, replacement).
        num_args = 0 \<and> control_word name \<and>
        (case replacement of [] \<Rightarrow> True | c # _ \<Rightarrow> \<not> is_alpha c) \<and>
        list_all (\<lambda>(name', _, _). macro_free name' replacement) macros) macros"

text \<open>
  Claim C4 fails as stated. The template \<open>x\<close> of the macro \<open>\x\<close> contains no macro name,
  yet one pass turns the text \<open>\\x\<close> into \<open>\x\<close>, which the second pass turns into
  \<open>x\<close>: the replacement joins the text before it into a new macro name. With four
  backslashes \<open>expand_macros\<close> is not idempotent either. For the arity-1 macro \<open>\a\<close> with
  template \<open>X#1\<close> the nested text \<open>\a{\a{y}}\<close> becomes \<open>X\a{y}\<close> after one pass and
  \<open>XXy\<close> after two.
\<close>

theorem expand_pass_not_fixed_counterexample:
  "find_sub (bsl # ''x'') ''x'' = None \<and>
   expand_pass [(bsl # ''x'', 0, ''x'')] (bsl # bsl # ''x'') = bsl # ''x'' \<and>
   expand_pass [(bsl # ''x'', 0, ''x'')] (bsl # ''x'') = ''x'' \<and>
   expand_macros (bsl # bsl # bsl # bsl # ''x'') [(bsl # ''x'', 0, ''x'')] = bsl # ''x'' \<and>
   expand_macros (bsl # ''x'') [(bsl # ''x'', 0, ''x'')] = ''x'' \<and>
   find_sub (bsl # ''a'') ''X#1'' = None \<and>
   expand_pass [(bsl # ''a'', 1, ''X#1'')] (bsl # ''a{'' @ bsl # ''a{y}}'') = ''X'' @ bsl # ''a{y}'' \<and>
   expand_pass [(bsl # ''a'', 1, ''X#1'')] (''X'' @ bsl # ''a{y}'') = ''XXy''"
  by code_simp

lemma bsl_not_alpha: "\<not> is_alpha bsl"
  by (simp add: is_alpha_def)

lemma starts_with_iff: "starts_with p s \<longleftrightarrow> (\<exists>t. s = p @ t)"
  by (induction p s rule: starts_with.induct) auto

lemma takeWhile_dropWhile_stop: "takeWhile P (dropWhile P s) = []"
  by (induction s) auto

lemma dropWhile_stop: "case dropWhile P s of [] \<Rightarrow> True | c # _ \<Rightarrow> \<not> P c"
  by (induction s) auto

lemma letters_prefix_iff:
  assumes "list_all is_alpha L"
  shows "(starts_with L s \<and> (case drop (length L) s of [] \<Rightarrow> True | c # _ \<Rightarrow> \<not> is_alpha c))
           \<longleftrightarrow> takeWhile is_alpha s = L"
proof
  assume a: "starts_with L s \<and> (case drop (length L) s of [] \<Rightarrow> True | c # _ \<Rightarrow> \<not> is_alpha c)"
  then obtain t where t: "s = L @ t" by (auto simp: starts_with_iff)
  with a have "takeWhile is_alpha t = []" by (cases t) auto
  with assms t show "takeWhile is_alpha s = L"
    by (simp add: takeWhile_append2 list_all_iff)
next
  assume a: "takeWhile is_alpha s = L"
  have s: "s = L @ dropWhile is_alpha s" using a takeWhile_dropWhile_id [of is_alpha s] by simp
  then have "starts_with L s" by (metis starts_with_iff)
  moreover have "drop (length L) s = dropWhile is_alpha s" using s
    by (metis append_eq_conv_conj)
  moreover have "case dropWhile is_alpha s of [] \<Rightarrow> True | c # _ \<Rightarrow> \<not> is_alpha c"
    by (rule dropWhile_stop)
  ultimately show "starts_with L s \<and> (case drop (length L) s of [] \<Rightarrow> True | c # _ \<Rightarrow> \<not> is_alpha c)"
    by simp
qed

lemma macro0_matcher_iff:
  assumes "list_all is_alpha L"
  shows "macro0_matcher (bsl # L) r prev s =
           (if \<exists>t. s = bsl # t \<and> takeWhile is_alpha t = L then Some (Suc (length L), r) else None)"
proof (cases s)
  case Nil
  then show ?thesis by (simp add: macro0_matcher_def)
next
  case (Cons c t)
  with letters_prefix_iff [OF assms, of t] show ?thesis
    by (auto simp: macro0_matcher_def)
qed

lemma takeWhile_append_stop:
  "takeWhile P b = [] \<Longrightarrow> takeWhile P (a @ b) = takeWhile P a"
  by (induction a) auto

lemma never_matches_repl:
  "never_matches (macro0_matcher n r) p s = never_matches (macro0_matcher n r') p' s"
  by (induction s arbitrary: p p') (auto simp: macro0_matcher_def)

lemma macro_free_Nil: "control_word n \<Longrightarrow> macro_free n []"
  by (auto simp: macro_free_def control_word_def macro0_matcher_def split: list.splits)

lemma macro_free_Cons:
  "macro_free n (c # s) \<longleftrightarrow> macro0_matcher n [] None (c # s) = None \<and> macro_free n s"
  using never_matches_repl [of n "[]" "Some c" s "[]" None] by (simp add: macro_free_def)

lemma macro_free_drop: "macro_free n s \<Longrightarrow> macro_free n (drop k s)"
proof (induction s arbitrary: k)
  case Nil
  then show ?case by simp
next
  case (Cons c s)
  then show ?case by (cases k) (auto simp: macro_free_Cons)
qed

lemma macro_free_append:
  assumes "list_all is_alpha L" "macro_free (bsl # L) a" "macro_free (bsl # L) b"
    and "takeWhile is_alpha b = []"
  shows "macro_free (bsl # L) (a @ b)"
  using assms(2)
proof (induction a)
  case Nil
  with assms(3) show ?case by simp
next
  case (Cons c a)
  then have 1: "macro0_matcher (bsl # L) [] None (c # a) = None" and 2: "macro_free (bsl # L) a"
    by (simp_all add: macro_free_Cons)
  from 1 have "macro0_matcher (bsl # L) [] None (c # a @ b) = None"
    by (simp add: macro0_matcher_iff [OF assms(1)] takeWhile_append_stop [OF assms(4)])
  with Cons.IH [OF 2] show ?case by (simp add: macro_free_Cons)
qed

lemma re_sub_letters:
  assumes "list_all is_alpha L'" "case r' of [] \<Rightarrow> True | c # _ \<Rightarrow> \<not> is_alpha c"
  shows "takeWhile is_alpha (re_sub (macro0_matcher (bsl # L') r') prev s) = takeWhile is_alpha s"
proof (induction "length s" arbitrary: s prev rule: less_induct)
  case less
  let ?m = "macro0_matcher (bsl # L') r'"
  show ?case
  proof (cases s)
    case Nil
    then show ?thesis by (simp add: macro0_matcher_def)
  next
    case (Cons c cs)
    show ?thesis
    proof (cases "\<exists>t. s = bsl # t \<and> takeWhile is_alpha t = L'")
      case False
      then have m: "?m prev (c # cs) = None" using Cons by (simp add: macro0_matcher_iff [OF assms(1)])
      from less [of cs "Some c"] Cons have "takeWhile is_alpha (re_sub ?m (Some c) cs) = takeWhile is_alpha cs"
        by simp
      with m Cons show ?thesis by simp
    next
      case True
      then have m: "?m prev (c # cs) = Some (Suc (length L'), r')" and c: "c = bsl"
        using Cons by (simp_all add: macro0_matcher_iff [OF assms(1)])
      from True Cons c have tw: "takeWhile is_alpha cs = L'" by simp
      let ?rest = "drop (Suc (length L')) (c # cs)"
      have rest: "?rest = dropWhile is_alpha cs"
        using tw takeWhile_dropWhile_id [of is_alpha cs] by (metis append_eq_conv_conj drop_Suc_Cons)
      have "takeWhile is_alpha ?rest = []"
        unfolding rest by (rule takeWhile_dropWhile_stop)
      moreover have "length ?rest < length s" using Cons by simp
      ultimately have out: "takeWhile is_alpha (re_sub ?m p ?rest) = []" for p
        using less [of ?rest p] by simp
      have "takeWhile is_alpha (r' @ re_sub ?m p ?rest) = []" for p
        using assms(2) out [of p] by (cases r') auto
      with m Cons c show ?thesis by (simp add: bsl_not_alpha)
    qed
  qed
qed

lemma re_sub_macro_free:
  assumes L: "list_all is_alpha L" and L': "list_all is_alpha L'"
    and r': "case r' of [] \<Rightarrow> True | c # _ \<Rightarrow> \<not> is_alpha c"
    and fr: "macro_free (bsl # L) r'"
  shows "L = L' \<or> macro_free (bsl # L) s \<Longrightarrow>
           macro_free (bsl # L) (re_sub (macro0_matcher (bsl # L') r') prev s)"
proof (induction "length s" arbitrary: s prev rule: less_induct)
  case less
  let ?m = "macro0_matcher (bsl # L') r'"
  have cw: "control_word (bsl # L)" using L by (simp add: control_word_def)
  show ?case
  proof (cases s)
    case Nil
    then show ?thesis using macro_free_Nil [OF cw] by (simp add: macro0_matcher_def)
  next
    case (Cons c cs)
    have tail: "L = L' \<or> macro_free (bsl # L) (drop k s)" for k
      using less.prems macro_free_drop by blast
    show ?thesis
    proof (cases "\<exists>t. s = bsl # t \<and> takeWhile is_alpha t = L'")
      case False
      then have m: "?m prev (c # cs) = None" using Cons by (simp add: macro0_matcher_iff [OF L'])
      from tail [of 1] Cons have "L = L' \<or> macro_free (bsl # L) cs" by simp
      from less.hyps [OF _ this, of "Some c"] Cons
      have ih: "macro_free (bsl # L) (re_sub ?m (Some c) cs)" by simp
      have "\<not> (\<exists>t. s = bsl # t \<and> takeWhile is_alpha t = L)"
      proof (cases "L = L'")
        case True
        with False show ?thesis by simp
      next
        case neq: False
        with less.prems have "macro_free (bsl # L) (c # cs)" using Cons by simp
        then have "macro0_matcher (bsl # L) [] None (c # cs) = None" by (simp add: macro_free_Cons)
        then show ?thesis using Cons by (simp add: macro0_matcher_iff [OF L] split: if_splits)
      qed
      then have "macro0_matcher (bsl # L) [] None (c # re_sub ?m (Some c) cs) = None"
        using Cons by (simp add: macro0_matcher_iff [OF L] re_sub_letters [OF L' r'])
      with ih m Cons show ?thesis by (simp add: macro_free_Cons)
    next
      case True
      then have m: "?m prev (c # cs) = Some (Suc (length L'), r')" and c: "c = bsl"
        using Cons by (simp_all add: macro0_matcher_iff [OF L'])
      from True Cons c have tw: "takeWhile is_alpha cs = L'" by simp
      let ?rest = "drop (Suc (length L')) (c # cs)"
      have rest: "?rest = dropWhile is_alpha cs"
        using tw takeWhile_dropWhile_id [of is_alpha cs] by (metis append_eq_conv_conj drop_Suc_Cons)
      have stop: "takeWhile is_alpha ?rest = []"
        unfolding rest by (rule takeWhile_dropWhile_stop)
      have len: "length ?rest < length s" using Cons by simp
      from tail [of "Suc (length L')"] Cons have "L = L' \<or> macro_free (bsl # L) ?rest" by simp
      from less.hyps [OF len this]
      have ih: "macro_free (bsl # L) (re_sub ?m p ?rest)" for p .
      have "takeWhile is_alpha (re_sub ?m p ?rest) = []" for p
        using re_sub_letters [OF L' r', of p ?rest] stop by simp
      from macro_free_append [OF L fr ih this]
      have "macro_free (bsl # L) (r' @ re_sub ?m p ?rest)" for p .
      with m Cons show ?thesis by simp
    qed
  qed
qed

lemma re_sub_macro_free_id:
  "macro_free n s \<Longrightarrow> re_sub (macro0_matcher n r) prev s = s"
  using never_matches_repl [of n r prev s "[]" None]
  by (simp add: macro_free_def re_sub_never_matches)

lemma plain_macros_entry:
  assumes "plain_macros MS" "(n, k, r) \<in> set MS"
  shows "k = 0" "\<exists>L. n = bsl # L \<and> list_all is_alpha L"
    "case r of [] \<Rightarrow> True | c # _ \<Rightarrow> \<not> is_alpha c"
    "\<And>n' k' r'. (n', k', r') \<in> set MS \<Longrightarrow> macro_free n' r"
proof -
  from assms have e: "k = 0 \<and> control_word n \<and>
      (case r of [] \<Rightarrow> True | c # _ \<Rightarrow> \<not> is_alpha c) \<and>
      list_all (\<lambda>(name', _, _). macro_free name' r) MS"
    by (auto simp: plain_macros_def list_all_iff)
  then show "k = 0" "case r of [] \<Rightarrow> True | c # _ \<Rightarrow> \<not> is_alpha c" by simp_all
  from e show "\<exists>L. n = bsl # L \<and> list_all is_alpha L"
    by (cases n) (auto simp: control_word_def)
  fix n' k' r' assume "(n', k', r') \<in> set MS"
  with e show "macro_free n' r" by (auto simp: list_all_iff)
qed

lemma apply_macro_free:
  assumes p: "plain_macros MS" and m: "(n', k', r') \<in> set MS" and n: "(n, k, r) \<in> set MS"
    and t: "n = n' \<or> macro_free n t"
  shows "macro_free n (apply_macro (n', k', r') t)"
proof -
  from plain_macros_entry(2) [OF p n] obtain L where L: "n = bsl # L" "list_all is_alpha L" by blast
  from plain_macros_entry(2) [OF p m] obtain L' where L': "n' = bsl # L'" "list_all is_alpha L'"
    by blast
  have k: "k' = 0" by (rule plain_macros_entry(1) [OF p m])
  have fr: "macro_free (bsl # L) r'" using plain_macros_entry(4) [OF p m n] L by simp
  from t L L' have "L = L' \<or> macro_free (bsl # L) t" by auto
  from re_sub_macro_free [OF L(2) L'(2) plain_macros_entry(3) [OF p m] fr this]
  show ?thesis using k L L' by (simp add: apply_macro_def)
qed

lemma fold_apply_macro_free:
  assumes p: "plain_macros MS"
  shows "set ms \<subseteq> set MS \<Longrightarrow> N \<subseteq> set MS \<Longrightarrow> \<forall>e \<in> N. macro_free (fst e) t \<Longrightarrow>
           \<forall>e \<in> N \<union> set ms. macro_free (fst e) (fold apply_macro ms t)"
proof (induction ms arbitrary: t N)
  case Nil
  then show ?case by simp
next
  case (Cons m ms)
  obtain n' k' r' where m: "m = (n', k', r')" by (cases m)
  from Cons.prems(1) m have mem: "(n', k', r') \<in> set MS" by simp
  have step: "\<forall>e \<in> insert m N. macro_free (fst e) (apply_macro m t)"
  proof
    fix e assume e: "e \<in> insert m N"
    obtain n k r where ee: "e = (n, k, r)" by (cases e)
    from e Cons.prems(1,2) ee have eM: "(n, k, r) \<in> set MS" by auto
    from e Cons.prems(3) ee m have "n = n' \<or> macro_free n t" by auto
    from apply_macro_free [OF p mem eM this] ee m show "macro_free (fst e) (apply_macro m t)"
      by simp
  qed
  from Cons.prems have "set ms \<subseteq> set MS" "insert m N \<subseteq> set MS" by auto
  from Cons.IH [OF this step] show ?case by simp
qed

lemma fold_apply_macro_id:
  assumes p: "plain_macros MS"
  shows "set ms \<subseteq> set MS \<Longrightarrow> \<forall>e \<in> set ms. macro_free (fst e) t \<Longrightarrow> fold apply_macro ms t = t"
proof (induction ms)
  case Nil
  then show ?case by simp
next
  case (Cons m ms)
  obtain n k r where m: "m = (n, k, r)" by (cases m)
  from Cons.prems(1) m have "(n, k, r) \<in> set MS" by simp
  from plain_macros_entry(1) [OF p this] have "k = 0" .
  moreover from Cons.prems(2) m have "macro_free n t" by simp
  ultimately have "apply_macro m t = t" using m by (simp add: apply_macro_def re_sub_macro_free_id)
  with Cons show ?case by simp
qed

lemma expand_pass_fixed:
  assumes "plain_macros macros"
  shows "expand_pass macros (expand_pass macros text) = expand_pass macros text"
proof -
  from fold_apply_macro_free [OF assms, of macros "{}" "text"]
  have "\<forall>e \<in> set macros. macro_free (fst e) (fold apply_macro macros text)" by simp
  from fold_apply_macro_id [OF assms _ this] show ?thesis by (simp add: expand_pass_def)
qed

text \<open>
  Claim C4, amended. For every text and every list of arity-0 macros, named by a backslash
  followed by letters, in which no template holds a macro reference and no template
  begins with a letter, one pass reaches a fixed point: the second and the third pass
  leave the text unchanged, \<open>expand_macros\<close> is one pass, and it is idempotent on its
  result.
\<close>

theorem expand_macros_fixed_point:
  assumes "plain_macros macros"
  shows "expand_pass macros (expand_pass macros text) = expand_pass macros text \<and>
         expand_pass macros (expand_pass macros (expand_pass macros text)) = expand_pass macros text \<and>
         expand_macros text macros = expand_pass macros text \<and>
         expand_macros (expand_macros text macros) macros = expand_macros text macros"
  using expand_pass_fixed [OF assms] by (simp add: expand_macros_def)

lemma plain_macros_example:
  "plain_macros [(bsl # ''R'', 0, ''{'' @ bsl # ''mathbb{R}}''), (bsl # ''eps'', 0, ''('' @ bsl # ''varepsilon)'')]"
  by code_simp

lemma expand_pass_example:
  "expand_pass [(bsl # ''R'', 0, ''{'' @ bsl # ''mathbb{R}}''), (bsl # ''eps'', 0, ''('' @ bsl # ''varepsilon)'')]
     (''x in '' @ bsl # ''R, '' @ bsl # ''eps>0'')
   = ''x in {'' @ bsl # ''mathbb{R}}, ('' @ bsl # ''varepsilon)>0''"
  by code_simp

theorem expand_macros_fixed_point_witness:
  "plain_macros [(bsl # ''R'', 0, ''{'' @ bsl # ''mathbb{R}}''), (bsl # ''eps'', 0, ''('' @ bsl # ''varepsilon)'')] \<and>
   expand_pass [(bsl # ''R'', 0, ''{'' @ bsl # ''mathbb{R}}''), (bsl # ''eps'', 0, ''('' @ bsl # ''varepsilon)'')]
     (''x in {'' @ bsl # ''mathbb{R}}, ('' @ bsl # ''varepsilon)>0'')
   = ''x in {'' @ bsl # ''mathbb{R}}, ('' @ bsl # ''varepsilon)>0'' \<and>
   expand_macros (''x in '' @ bsl # ''R, '' @ bsl # ''eps>0'')
     [(bsl # ''R'', 0, ''{'' @ bsl # ''mathbb{R}}''), (bsl # ''eps'', 0, ''('' @ bsl # ''varepsilon)'')]
   = ''x in {'' @ bsl # ''mathbb{R}}, ('' @ bsl # ''varepsilon)>0''"
  using expand_macros_fixed_point [OF plain_macros_example, of "''x in '' @ bsl # ''R, '' @ bsl # ''eps>0''"]
    plain_macros_example expand_pass_example
  by simp

section \<open>Blocks and their matching close markers\<close>

text \<open>The literal \<open>p\<close> occurs in \<open>s\<close> at offset \<open>i\<close>.\<close>

definition occurs_at :: "string \<Rightarrow> string \<Rightarrow> nat \<Rightarrow> bool" where
  "occurs_at p s i = starts_with p (drop i s)"

text \<open>The number of offsets in \<open>[a, b)\<close> at which \<open>P\<close> holds.\<close>

definition count_between :: "(nat \<Rightarrow> bool) \<Rightarrow> nat \<Rightarrow> nat \<Rightarrow> nat" where
  "count_between P a b = length (filter P [a..<b])"

text \<open>An environment name made of letters, as the entries of \<open>ENV_TYPES\<close> are.\<close>

definition plain_name :: "string \<Rightarrow> bool" where
  "plain_name env = list_all is_alpha env"

text \<open>
  In a scan that stands at offset \<open>from\<close> with nesting depth \<open>depth\<close>, the close marker
  at \<open>e\<close> brings the depth to zero: the open markers between \<open>from\<close> and \<open>e\<close> and the
  depth together are one more than the close markers between them.
\<close>

definition closes_at_depth :: "string \<Rightarrow> string \<Rightarrow> nat \<Rightarrow> nat \<Rightarrow> nat \<Rightarrow> bool" where
  "closes_at_depth tex env depth from e =
     (occurs_at (end_marker env) tex e \<and>
      depth + count_between (occurs_at (begin_marker env) tex) from e
        = Suc (count_between (occurs_at (end_marker env) tex) from e))"

text \<open>
  The matching close marker of a block whose content starts at \<open>content_start\<close>: the
  first close marker after which as many blocks of the type have been closed as were
  opened since the content start. \<open>None\<close> when the text has no such marker.
\<close>

definition matching_close :: "string \<Rightarrow> string \<Rightarrow> nat \<Rightarrow> nat option" where
  "matching_close tex env content_start =
     find (\<lambda>e. occurs_at (end_marker env) tex e \<and>
               count_between (occurs_at (begin_marker env) tex) content_start e
                 = count_between (occurs_at (end_marker env) tex) content_start e)
       [content_start..<length tex]"

lemma occurs_at_drop: "occurs_at p (drop k s) j = occurs_at p s (k + j)"
  by (simp add: occurs_at_def add.commute)

lemma occurs_at_bound: "p \<noteq> [] \<Longrightarrow> occurs_at p s i \<Longrightarrow> i + length p \<le> length s"
  using starts_with_length [of p "drop i s"] by (cases p) (auto simp: occurs_at_def)

lemma occurs_at_nth:
  assumes "occurs_at p s i" "k < length p"
  shows "s ! (i + k) = p ! k"
proof -
  from assms(1) obtain t where t: "drop i s = p @ t" by (auto simp: occurs_at_def starts_with_iff)
  from assms(2) have "p \<noteq> []" by auto
  from occurs_at_bound [OF this assms(1)] assms(2) have "i + k < length s" by simp
  then have "s ! (i + k) = drop i s ! k" by simp
  with t assms(2) show ?thesis by (simp add: nth_append)
qed

lemma find_sub_Some:
  "find_sub p s = Some i \<Longrightarrow> occurs_at p s i \<and> (\<forall>j < i. \<not> occurs_at p s j)"
proof (induction s arbitrary: i)
  case Nil
  then show ?case by (auto simp: occurs_at_def split: if_splits)
next
  case (Cons c cs)
  show ?case
  proof (cases "starts_with p (c # cs)")
    case True
    with Cons.prems show ?thesis by (simp add: occurs_at_def)
  next
    case False
    with Cons.prems obtain j where j: "find_sub p cs = Some j" "i = Suc j" by auto
    from Cons.IH [OF j(1)] have "occurs_at p cs j" "\<forall>k < j. \<not> occurs_at p cs k" by auto
    with j(2) False show ?thesis
      by (auto simp: occurs_at_def less_Suc_eq_0_disj)
  qed
qed

lemma find_sub_None:
  assumes "p \<noteq> []" "find_sub p s = None"
  shows "\<not> occurs_at p s j"
  using assms(2)
proof (induction s arbitrary: j)
  case Nil
  with assms(1) show ?case by (cases p) (auto simp: occurs_at_def)
next
  case (Cons c cs)
  then have "\<not> starts_with p (c # cs)" "find_sub p cs = None" by (auto split: if_splits)
  with Cons.IH show ?case by (cases j) (auto simp: occurs_at_def)
qed

lemma search_Some:
  assumes "find_sub p (drop pos s) = Some k"
  shows "occurs_at p s (pos + k)" "\<And>x. pos \<le> x \<Longrightarrow> x < pos + k \<Longrightarrow> \<not> occurs_at p s x"
proof -
  from find_sub_Some [OF assms]
  have a: "occurs_at p (drop pos s) k" and b: "\<forall>j < k. \<not> occurs_at p (drop pos s) j" by auto
  from a show "occurs_at p s (pos + k)" by (simp add: occurs_at_drop)
  fix x assume "pos \<le> x" "x < pos + k"
  then have "x - pos < k" "pos + (x - pos) = x" by auto
  with b show "\<not> occurs_at p s x" by (metis occurs_at_drop)
qed

lemma search_None:
  assumes "p \<noteq> []" "find_sub p (drop pos s) = None" "pos \<le> x"
  shows "\<not> occurs_at p s x"
  using find_sub_None [OF assms(1,2), of "x - pos"] assms(3) by (simp add: occurs_at_drop)

lemma marker_length [simp]:
  "length (begin_marker env) = length env + 8" "length (end_marker env) = length env + 6"
  by (simp_all add: begin_marker_def end_marker_def)

lemma marker_nonempty [simp]: "begin_marker env \<noteq> []" "end_marker env \<noteq> []"
  by (simp_all add: begin_marker_def end_marker_def)

text \<open>One of the two markers of an environment name.\<close>

definition is_marker :: "string \<Rightarrow> string \<Rightarrow> bool" where
  "is_marker env m = (m = begin_marker env \<or> m = end_marker env)"

lemma marker_head: "is_marker env m \<Longrightarrow> m ! 0 = bsl"
  by (auto simp: is_marker_def begin_marker_def end_marker_def)

lemma marker_tail:
  assumes "bsl \<notin> set env" "is_marker env m" "0 < k" "k < length m"
  shows "m ! k \<noteq> bsl"
proof -
  from assms(2) obtain t where t: "m = bsl # t" "bsl \<notin> set t"
    using assms(1) by (auto simp: is_marker_def begin_marker_def end_marker_def)
  from assms(3,4) t(1) have "m ! k \<in> set t" by (cases k) auto
  with t(2) show ?thesis by auto
qed

lemma no_overlap:
  assumes env: "bsl \<notin> set env" and m: "is_marker env m1" "is_marker env m2"
    and o: "occurs_at m1 tex i" "occurs_at m2 tex j" and lt: "i < j"
  shows "i + length m1 \<le> j"
proof (rule ccontr)
  assume "\<not> i + length m1 \<le> j"
  with lt have k: "0 < j - i" "j - i < length m1" by auto
  from m(2) have "0 < length m2" by (auto simp: is_marker_def begin_marker_def end_marker_def)
  from occurs_at_nth [OF o(2) this] marker_head [OF m(2)] have "tex ! j = bsl" by simp
  moreover from occurs_at_nth [OF o(1) k(2)] lt have "tex ! j = m1 ! (j - i)" by simp
  ultimately show False using marker_tail [OF env m(1) k] by simp
qed

lemma not_both:
  assumes "occurs_at (begin_marker env) tex i" "occurs_at (end_marker env) tex i"
  shows False
proof -
  from occurs_at_nth [OF assms(1), of 1] have "tex ! (i + 1) = CHR ''b''"
    by (simp add: begin_marker_def)
  moreover from occurs_at_nth [OF assms(2), of 1] have "tex ! (i + 1) = CHR ''e''"
    by (simp add: end_marker_def)
  ultimately show False by simp
qed

lemma upt_split: "a \<le> b \<Longrightarrow> b \<le> c \<Longrightarrow> [a..<c] = [a..<b] @ [b..<c]"
  using upt_add_eq_append [of a b "c - b"] by simp

lemma count_split:
  "a \<le> b \<Longrightarrow> b \<le> c \<Longrightarrow> count_between P a c = count_between P a b + count_between P b c"
  by (simp add: count_between_def upt_split [of a b c])

lemma count_zero: "(\<And>i. a \<le> i \<Longrightarrow> i < b \<Longrightarrow> \<not> P i) \<Longrightarrow> count_between P a b = 0"
  by (simp add: count_between_def filter_empty_conv)

lemma count_one:
  assumes "a \<le> x" "x < b" "P x" "\<And>i. a \<le> i \<Longrightarrow> i < b \<Longrightarrow> i \<noteq> x \<Longrightarrow> \<not> P i"
  shows "count_between P a b = 1"
proof -
  have "count_between P a b = count_between P a x + count_between P x (Suc x) + count_between P (Suc x) b"
    using assms(1,2) count_split [of a x b P] count_split [of x "Suc x" b P] by simp
  moreover have "count_between P a x = 0" using assms by (intro count_zero) auto
  moreover have "count_between P (Suc x) b = 0" using assms by (intro count_zero) auto
  moreover have "count_between P x (Suc x) = 1" using assms(3) by (simp add: count_between_def)
  ultimately show ?thesis by simp
qed

lemma find_upt_skip:
  assumes "a \<le> b" "b \<le> c" "\<And>e. a \<le> e \<Longrightarrow> e < b \<Longrightarrow> \<not> P e"
  shows "find P [a..<c] = find P [b..<c]"
proof -
  have "find P (xs @ ys) = find P ys" if "\<forall>x \<in> set xs. \<not> P x" for xs ys :: "nat list"
    using that by (induction xs) auto
  from this [of "[a..<b]" "[b..<c]"] assms show ?thesis
    by (simp add: upt_split [of a b c])
qed

lemma find_upt_first:
  assumes "a \<le> x" "x < c" "P x" "\<And>e. a \<le> e \<Longrightarrow> e < x \<Longrightarrow> \<not> P e"
  shows "find P [a..<c] = Some x"
proof -
  from find_upt_skip [of a x c P] assms have "find P [a..<c] = find P [x..<c]" by simp
  also from assms(2,3) have "\<dots> = Some x" by (simp add: upt_conv_Cons)
  finally show ?thesis .
qed

lemma find_upt_cong:
  "(\<And>e. a \<le> e \<Longrightarrow> e < c \<Longrightarrow> P e = Q e) \<Longrightarrow> find P [a..<c] = find Q [a..<c]"
  by (rule find_cong) auto

lemma inner_loop_exit: "snd (snd (inner_loop tex env (0, sp, ep))) = ep"
  by (simp add: inner_loop.simps [of tex env "(0, sp, ep)"] inner_step_def)

lemma inner_loop_spec:
  assumes env: "bsl \<notin> set env"
  shows "0 < d \<Longrightarrow>
     snd (snd (inner_loop tex env (d, sp, None)))
       = find (closes_at_depth tex env d sp) [sp..<length tex]"
proof (induction "length tex - sp" arbitrary: d sp rule: less_induct)
  case less
  note unfold = inner_loop.simps [of tex env "(d, sp, None)"]
  let ?b = "begin_marker env" and ?e = "end_marker env"
  let ?O = "occurs_at ?b tex" and ?C = "occurs_at ?e tex"
  have mb: "is_marker env ?b" and me: "is_marker env ?e" by (simp_all add: is_marker_def)
  show ?case
  proof (cases "find_sub ?e (drop sp tex)")
    case None
    then have step: "inner_step tex env (d, sp, None) = None"
      by (simp add: inner_step_def Let_def)
    have "\<not> ?C x" if "sp \<le> x" for x
      using search_None [OF _ None that] by simp
    then have "find (closes_at_depth tex env d sp) [sp..<length tex] = None"
      by (auto simp: find_None_iff closes_at_depth_def)
    with step show ?thesis by (simp add: unfold)
  next
    case (Some e0)
    let ?E = "sp + e0"
    from search_Some [OF Some] have CE: "?C ?E" and noC: "\<And>x. sp \<le> x \<Longrightarrow> x < ?E \<Longrightarrow> \<not> ?C x"
      by auto
    from occurs_at_bound [OF _ CE] have Eb: "?E + length ?e \<le> length tex" by simp
    show ?thesis
    proof (cases "\<exists>b0. find_sub ?b (drop sp tex) = Some b0 \<and> b0 < e0")
      case True
      then obtain b0 where b0: "find_sub ?b (drop sp tex) = Some b0" "b0 < e0" by blast
      let ?B = "sp + b0"
      let ?sp' = "sp + (b0 + length ?b)"
      from search_Some [OF b0(1)] have OB: "?O ?B" and noO: "\<And>x. sp \<le> x \<Longrightarrow> x < ?B \<Longrightarrow> \<not> ?O x"
        by auto
      from b0(2) have "?B < ?E" by simp
      from no_overlap [OF env mb me OB CE this] have sE: "?sp' \<le> ?E" by simp
      have step: "inner_step tex env (d, sp, None) = Some (d + 1, ?sp', None)"
        using less.prems Some b0 by (simp add: inner_step_def Let_def)
      have noO2: "\<not> ?O x" if "sp \<le> x" "x < ?sp'" "x \<noteq> ?B" for x
      proof (cases "x < ?B")
        case True
        with noO that show ?thesis by simp
      next
        case False
        with that have "?B < x" by simp
        from no_overlap [OF env mb mb OB _ this] that show ?thesis by auto
      qed
      have noC2: "\<not> ?C x" if "sp \<le> x" "x < ?sp'" for x
        using noC [of x] that sE by simp
      have cO: "count_between ?O sp e = 1 + count_between ?O ?sp' e" if "?sp' \<le> e" for e
      proof -
        have "count_between ?O sp ?sp' = 1"
          by (rule count_one [of sp ?B]) (use OB noO2 in auto)
        with count_split [of sp ?sp' e ?O] that show ?thesis by simp
      qed
      have cC: "count_between ?C sp e = count_between ?C ?sp' e" if "?sp' \<le> e" for e
      proof -
        have "count_between ?C sp ?sp' = 0"
          by (rule count_zero) (use noC2 in auto)
        with count_split [of sp ?sp' e ?C] that show ?thesis by simp
      qed
      have "find (closes_at_depth tex env d sp) [sp..<length tex]
              = find (closes_at_depth tex env d sp) [?sp'..<length tex]"
        by (rule find_upt_skip) (use sE Eb noC2 in \<open>auto simp: closes_at_depth_def\<close>)
      also have "\<dots> = find (closes_at_depth tex env (d + 1) ?sp') [?sp'..<length tex]"
        by (rule find_upt_cong) (simp add: closes_at_depth_def cO cC)
      also have "\<dots> = snd (snd (inner_loop tex env (d + 1, ?sp', None)))"
        by (rule less.hyps [symmetric]) (use sE Eb in auto)
      finally show ?thesis using step by (simp add: unfold)
    next
      case False
      let ?sp' = "sp + (e0 + length ?e)"
      have noO: "\<not> ?O x" if "sp \<le> x" "x < ?sp'" for x
      proof
        assume Ox: "?O x"
        show False
        proof (cases "find_sub ?b (drop sp tex)")
          case None
          from search_None [OF _ None that(1)] Ox show False by simp
        next
          case (Some b0)
          with False have ge: "e0 \<le> b0" by auto
          from search_Some [OF Some] have OB: "?O (sp + b0)"
            and first: "\<And>y. sp \<le> y \<Longrightarrow> y < sp + b0 \<Longrightarrow> \<not> ?O y" by auto
          from first [of x] that(1) Ox have "sp + b0 \<le> x" by (meson not_le_imp_less)
          with ge have "?E \<le> x" by simp
          moreover from not_both [OF _ CE] Ox have "x \<noteq> ?E" by auto
          ultimately have "?E < x" by simp
          from no_overlap [OF env me mb CE Ox this] that(2) show False by simp
        qed
      qed
      have noC2: "\<not> ?C x" if "sp \<le> x" "x < ?sp'" "x \<noteq> ?E" for x
      proof (cases "x < ?E")
        case True
        with noC that show ?thesis by simp
      next
        case False
        with that have "?E < x" by simp
        from no_overlap [OF env me me CE _ this] that show ?thesis by auto
      qed
      have cO: "count_between ?O sp e = count_between ?O ?sp' e" if "?sp' \<le> e" for e
      proof -
        have "count_between ?O sp ?sp' = 0"
          by (rule count_zero) (use noO in auto)
        with count_split [of sp ?sp' e ?O] that show ?thesis by simp
      qed
      have cC: "count_between ?C sp e = 1 + count_between ?C ?sp' e" if "?sp' \<le> e" for e
      proof -
        have "count_between ?C sp ?sp' = 1"
          by (rule count_one [of sp ?E]) (use CE noC2 in auto)
        with count_split [of sp ?sp' e ?C] that show ?thesis by simp
      qed
      have zO: "count_between ?O sp ?E = 0" by (rule count_zero) (use noO in auto)
      have zC: "count_between ?C sp ?E = 0" by (rule count_zero) (use noC in auto)
      have step: "inner_step tex env (d, sp, None)
                    = Some (d - 1, ?sp', if d - 1 = 0 then Some ?E else None)"
        using less.prems Some False
        by (cases "find_sub ?b (drop sp tex)") (auto simp: inner_step_def Let_def)
      have next_state: "inner_loop tex env (d, sp, None)
          = inner_loop tex env (d - 1, ?sp', if d - 1 = 0 then Some ?E else None)"
        by (subst unfold) (simp only: step option.case)
      show ?thesis
      proof (cases "d = 1")
        case True
        have "find (closes_at_depth tex env d sp) [sp..<length tex] = Some ?E"
          by (rule find_upt_first)
             (use True CE Eb noC zO zC in \<open>auto simp: closes_at_depth_def\<close>)
        with True inner_loop_exit [of tex env ?sp' "Some ?E"] next_state show ?thesis
          by simp
      next
        case d: False
        with less.prems have d2: "2 \<le> d" by simp
        have "find (closes_at_depth tex env d sp) [sp..<length tex]
                = find (closes_at_depth tex env d sp) [?sp'..<length tex]"
        proof (rule find_upt_skip)
          show "sp \<le> ?sp'" by simp
          show "?sp' \<le> length tex" using Eb by simp
          fix e assume e: "sp \<le> e" "e < ?sp'"
          show "\<not> closes_at_depth tex env d sp e"
          proof (cases "e = ?E")
            case True
            with zO zC d2 show ?thesis by (simp add: closes_at_depth_def)
          next
            case False
            with noC2 [OF e] show ?thesis by (simp add: closes_at_depth_def)
          qed
        qed
        also have "\<dots> = find (closes_at_depth tex env (d - 1) ?sp') [?sp'..<length tex]"
          by (rule find_upt_cong) (use d2 in \<open>auto simp: closes_at_depth_def cO cC\<close>)
        also have "\<dots> = snd (snd (inner_loop tex env (d - 1, ?sp', None)))"
          by (rule less.hyps [symmetric]) (use Eb d2 in auto)
        finally show ?thesis using d2 next_state by simp
      qed
    qed
  qed
qed

lemma inner_loop_matching_close:
  assumes "bsl \<notin> set env"
  shows "snd (snd (inner_loop tex env (1, cs, None))) = matching_close tex env cs"
proof -
  have "closes_at_depth tex env 1 cs = (\<lambda>e. occurs_at (end_marker env) tex e \<and>
               count_between (occurs_at (begin_marker env) tex) cs e
                 = count_between (occurs_at (end_marker env) tex) cs e)"
    by (auto simp: closes_at_depth_def fun_eq_iff)
  with inner_loop_spec [OF assms, of 1 tex cs] show ?thesis by (simp add: matching_close_def)
qed

text \<open>
  The block that opens at offset \<open>s\<close>, when an open marker stands there and has a matching
  close marker: its body is the text between the two markers, trimmed.
\<close>

definition block_at :: "string \<Rightarrow> string \<Rightarrow> nat \<Rightarrow> block option" where
  "block_at tex env s =
     (if occurs_at (begin_marker env) tex s then
        map_option (\<lambda>e. (env, strip (slice tex (s + length (begin_marker env)) e), s))
          (matching_close tex env (s + length (begin_marker env)))
      else None)"

text \<open>The properly closed blocks of one type, from offset \<open>pos\<close> on, in document order.\<close>

definition closed_blocks :: "string \<Rightarrow> string \<Rightarrow> nat \<Rightarrow> block list" where
  "closed_blocks tex env pos = List.map_filter (block_at tex env) [pos..<length tex]"

lemma map_filter_append: "List.map_filter f (xs @ ys) = List.map_filter f xs @ List.map_filter f ys"
  by (simp add: List.map_filter_def)

lemma map_filter_none: "(\<And>x. x \<in> set xs \<Longrightarrow> f x = None) \<Longrightarrow> List.map_filter f xs = []"
  by (simp add: List.map_filter_def filter_empty_conv)

lemma plain_name_no_bsl: "plain_name env \<Longrightarrow> bsl \<notin> set env"
  by (auto simp: plain_name_def list_all_iff is_alpha_def)

lemma outer_loop_spec:
  assumes env: "bsl \<notin> set env"
  shows "snd (outer_loop tex env (pos, rs)) = rs @ closed_blocks tex env pos"
proof (induction "length tex - pos" arbitrary: pos rs rule: less_induct)
  case less
  note unfold = outer_loop.simps [of tex env "(pos, rs)"]
  let ?b = "begin_marker env"
  have mb: "is_marker env ?b" by (simp add: is_marker_def)
  show ?case
  proof (cases "find_sub ?b (drop pos tex)")
    case None
    then have step: "outer_step tex env (pos, rs) = None"
      by (simp add: outer_step_def search_from_def)
    have "block_at tex env x = None" if "x \<in> set [pos..<length tex]" for x
      using search_None [OF _ None, of x] that by (simp add: block_at_def)
    from map_filter_none [of "[pos..<length tex]" "block_at tex env", OF this]
    have "closed_blocks tex env pos = []" by (simp add: closed_blocks_def)
    with step show ?thesis by (simp add: unfold)
  next
    case (Some k)
    let ?start = "pos + k"
    let ?cs = "?start + length ?b"
    from search_Some [OF Some] have O: "occurs_at ?b tex ?start"
      and first: "\<And>x. pos \<le> x \<Longrightarrow> x < ?start \<Longrightarrow> \<not> occurs_at ?b tex x" by auto
    from occurs_at_bound [OF _ O] have cs: "?cs \<le> length tex" by simp
    let ?new = "case block_at tex env ?start of Some b \<Rightarrow> [b] | None \<Rightarrow> []"
    have step: "outer_step tex env (pos, rs) = Some (?cs, rs @ ?new)"
      using Some O inner_loop_matching_close [OF env, of tex ?cs]
      by (simp add: outer_step_def search_from_def Let_def block_at_def split: option.splits)
    have a: "List.map_filter (block_at tex env) [pos..<?start] = []"
      by (rule map_filter_none) (use first in \<open>auto simp: block_at_def\<close>)
    have b: "List.map_filter (block_at tex env) [Suc ?start..<?cs] = []"
    proof (rule map_filter_none)
      fix x assume "x \<in> set [Suc ?start..<?cs]"
      then have x: "?start < x" "x < ?cs" by auto
      have "\<not> occurs_at ?b tex x"
        using no_overlap [OF env mb mb O _ x(1)] x(2) by auto
      then show "block_at tex env x = None" by (simp add: block_at_def)
    qed
    have "[pos..<length tex] = [pos..<?start] @ [?start..<Suc ?start] @ [Suc ?start..<?cs] @ [?cs..<length tex]"
      using cs upt_split [of pos ?start "length tex"] upt_split [of ?start "Suc ?start" "length tex"]
        upt_split [of "Suc ?start" ?cs "length tex"] by simp
    then have "closed_blocks tex env pos
        = List.map_filter (block_at tex env) [?start..<Suc ?start] @ closed_blocks tex env ?cs"
      unfolding closed_blocks_def by (simp only: map_filter_append a b append_Nil)
    also have "List.map_filter (block_at tex env) [?start..<Suc ?start] = ?new"
      by (simp add: List.map_filter_def split: option.splits)
    finally have cb: "closed_blocks tex env pos = ?new @ closed_blocks tex env ?cs" .
    have "snd (outer_loop tex env (pos, rs)) = snd (outer_loop tex env (?cs, rs @ ?new))"
      by (subst unfold) (simp only: step option.case)
    also have "\<dots> = (rs @ ?new) @ closed_blocks tex env ?cs"
      by (rule less.hyps) (use cs in auto)
    finally show ?thesis using cb by simp
  qed
qed

text \<open>The properly closed blocks of the requested types, type by type.\<close>

definition all_closed_blocks :: "string \<Rightarrow> string list \<Rightarrow> block list" where
  "all_closed_blocks tex envs = concat (map (\<lambda>env. closed_blocks tex env 0) envs)"

lemma fold_outer_loop:
  "\<forall>env \<in> set envs. bsl \<notin> set env \<Longrightarrow>
     fold (\<lambda>env results. snd (outer_loop tex env (0, results))) envs acc
       = acc @ all_closed_blocks tex envs"
  by (induction envs arbitrary: acc) (simp_all add: all_closed_blocks_def outer_loop_spec)

lemma find_environments_spec:
  assumes "list_all plain_name envs"
  shows "find_environments tex envs = sort_key block_start (all_closed_blocks tex envs)"
proof -
  from assms have "\<forall>env \<in> set envs. bsl \<notin> set env"
    by (auto simp: list_all_iff plain_name_no_bsl)
  from fold_outer_loop [OF this, of tex "[]"] show ?thesis by (simp add: find_environments_def)
qed

lemma block_at_Some:
  "block_at tex env s = Some b \<longleftrightarrow>
     occurs_at (begin_marker env) tex s \<and>
     (\<exists>e. matching_close tex env (s + length (begin_marker env)) = Some e \<and>
          b = (env, strip (slice tex (s + length (begin_marker env)) e), s))"
  by (auto simp: block_at_def)

lemma set_closed_blocks:
  "set (closed_blocks tex env 0) = {b. \<exists>s. block_at tex env s = Some b}"
proof -
  have "s < length tex" if "block_at tex env s = Some b" for s b
    using that occurs_at_bound [of "begin_marker env" tex s] by (auto simp: block_at_Some)
  then show ?thesis
    by (force simp: closed_blocks_def List.map_filter_def image_iff)
qed

lemma set_find_environments:
  assumes "list_all plain_name envs"
  shows "(env, body, s) \<in> set (find_environments tex envs) \<longleftrightarrow>
     env \<in> set envs \<and> occurs_at (begin_marker env) tex s \<and>
     (\<exists>e. matching_close tex env (s + length (begin_marker env)) = Some e \<and>
          body = strip (slice tex (s + length (begin_marker env)) e))"
  by (auto simp: find_environments_spec [OF assms] all_closed_blocks_def set_closed_blocks
      block_at_Some)

lemma starts_closed_blocks:
  "map block_start (closed_blocks tex env pos)
     = filter (\<lambda>s. block_at tex env s \<noteq> None) [pos..<length tex]"
proof -
  have "map block_start (List.map_filter (block_at tex env) xs)
      = filter (\<lambda>s. block_at tex env s \<noteq> None) xs" for xs
    by (induction xs) (auto simp: List.map_filter_def block_at_def block_start_def)
  then show ?thesis by (simp add: closed_blocks_def)
qed

lemma distinct_closed_blocks: "distinct (closed_blocks tex env pos)"
proof -
  have "distinct (map block_start (closed_blocks tex env pos))"
    by (simp add: starts_closed_blocks)
  then show ?thesis by (rule distinct_map [THEN iffD1, THEN conjunct1])
qed

lemma fst_closed_blocks: "b \<in> set (closed_blocks tex env pos) \<Longrightarrow> fst b = env"
  by (auto simp: closed_blocks_def List.map_filter_def block_at_def split: if_splits)

lemma distinct_all_closed_blocks:
  "distinct envs \<Longrightarrow> distinct (all_closed_blocks tex envs)"
proof (induction envs)
  case Nil
  then show ?case by (simp add: all_closed_blocks_def)
next
  case (Cons env envs)
  have "set (closed_blocks tex env 0) \<inter> set (all_closed_blocks tex envs) = {}"
  proof (rule ccontr)
    assume "\<not> ?thesis"
    then obtain b where b: "b \<in> set (closed_blocks tex env 0)" "b \<in> set (all_closed_blocks tex envs)"
      by blast
    from b(2) obtain env' where "env' \<in> set envs" "b \<in> set (closed_blocks tex env' 0)"
      by (auto simp: all_closed_blocks_def)
    with fst_closed_blocks [OF b(1)] fst_closed_blocks [of b tex env' 0] Cons.prems
    show False by auto
  qed
  with Cons distinct_closed_blocks [of tex env 0] show ?case
    by (simp add: all_closed_blocks_def)
qed

text \<open>
  Claim C2. The list \<open>find_environments\<close> returns is sorted by start offset. For
  environment names made of letters it is the sorted list of the properly closed blocks:
  a block \<open>(env, body, s)\<close> is returned exactly when \<open>env\<close> is a requested type, an open
  marker of \<open>env\<close> stands at \<open>s\<close>, it has a matching close marker, and \<open>body\<close> is the text
  strictly between the two markers with the whitespace at both ends trimmed; with distinct
  requested types no block is returned twice.
\<close>

theorem find_environments_blocks:
  "sorted (map block_start (find_environments tex envs)) \<and>
   (list_all plain_name envs \<longrightarrow>
      find_environments tex envs = sort_key block_start (all_closed_blocks tex envs) \<and>
      (\<forall>env body s. (env, body, s) \<in> set (find_environments tex envs) \<longleftrightarrow>
         env \<in> set envs \<and> occurs_at (begin_marker env) tex s \<and>
         (\<exists>e. matching_close tex env (s + length (begin_marker env)) = Some e \<and>
              body = strip (slice tex (s + length (begin_marker env)) e))) \<and>
      (distinct envs \<longrightarrow> distinct (find_environments tex envs)))"
proof -
  have 1: "sorted (map block_start (find_environments tex envs))"
    by (simp add: find_environments_def)
  have 2: "distinct envs \<longrightarrow> distinct (find_environments tex envs)" if "list_all plain_name envs"
    using distinct_all_closed_blocks [of envs tex] by (simp add: find_environments_spec [OF that])
  from 1 2 find_environments_spec [of envs tex] set_find_environments [of envs _ _ _ tex]
  show ?thesis by blast
qed

lemma two_blocks_example:
  "list_all plain_name ENV_TYPES \<and> distinct ENV_TYPES \<and>
   find_environments
     (bsl # ''begin{lemma} a '' @ bsl # ''end{lemma}'' @ bsl # ''begin{theorem}b'' @ bsl # ''end{theorem}'')
     ENV_TYPES = [(''lemma'', ''a'', 0), (''theorem'', ''b'', 27)]"
  by code_simp

theorem find_environments_blocks_witness:
  "list_all plain_name ENV_TYPES \<and> distinct ENV_TYPES \<and>
   find_environments
     (bsl # ''begin{lemma} a '' @ bsl # ''end{lemma}'' @ bsl # ''begin{theorem}b'' @ bsl # ''end{theorem}'')
     ENV_TYPES = [(''lemma'', ''a'', 0), (''theorem'', ''b'', 27)] \<and>
   sort_key block_start (all_closed_blocks
     (bsl # ''begin{lemma} a '' @ bsl # ''end{lemma}'' @ bsl # ''begin{theorem}b'' @ bsl # ''end{theorem}'')
     ENV_TYPES) = [(''lemma'', ''a'', 0), (''theorem'', ''b'', 27)] \<and>
   occurs_at (begin_marker ''theorem'')
     (bsl # ''begin{lemma} a '' @ bsl # ''end{lemma}'' @ bsl # ''begin{theorem}b'' @ bsl # ''end{theorem}'') 27 \<and>
   (\<exists>e. matching_close
     (bsl # ''begin{lemma} a '' @ bsl # ''end{lemma}'' @ bsl # ''begin{theorem}b'' @ bsl # ''end{theorem}'')
     ''theorem'' (27 + length (begin_marker ''theorem'')) = Some e \<and>
     ''b'' = strip (slice
       (bsl # ''begin{lemma} a '' @ bsl # ''end{lemma}'' @ bsl # ''begin{theorem}b'' @ bsl # ''end{theorem}'')
       (27 + length (begin_marker ''theorem'')) e))"
proof -
  let ?doc = "bsl # ''begin{lemma} a '' @ bsl # ''end{lemma}'' @ bsl # ''begin{theorem}b'' @ bsl # ''end{theorem}''"
  from two_blocks_example have p: "list_all plain_name ENV_TYPES" and d: "distinct ENV_TYPES"
    and r: "find_environments ?doc ENV_TYPES = [(''lemma'', ''a'', 0), (''theorem'', ''b'', 27)]"
    by blast+
  from find_environments_blocks [of ?doc ENV_TYPES] p
  have s: "find_environments ?doc ENV_TYPES = sort_key block_start (all_closed_blocks ?doc ENV_TYPES)"
    and m: "\<And>env body s. (env, body, s) \<in> set (find_environments ?doc ENV_TYPES) \<longleftrightarrow>
         env \<in> set ENV_TYPES \<and> occurs_at (begin_marker env) ?doc s \<and>
         (\<exists>e. matching_close ?doc env (s + length (begin_marker env)) = Some e \<and>
              body = strip (slice ?doc (s + length (begin_marker env)) e))"
    by blast+
  have "(''theorem'', ''b'', 27) \<in> set (find_environments ?doc ENV_TYPES)"
    unfolding r by simp
  with m [of "''theorem''" "''b''" 27]
  have "occurs_at (begin_marker ''theorem'') ?doc 27 \<and>
     (\<exists>e. matching_close ?doc ''theorem'' (27 + length (begin_marker ''theorem'')) = Some e \<and>
          ''b'' = strip (slice ?doc (27 + length (begin_marker ''theorem'')) e))"
    by blast
  with p d r s show ?thesis by simp
qed

section \<open>Unclosed blocks\<close>

lemma get_section_context_find_sections:
  "get_section_context P (find_sections tex) = Inr (spec_context P (find_sections tex))"
proof -
  have "sorted (map fst (find_sections tex))"
    using finditer_sorted_aux [of section_matcher 0 tex] by (simp add: find_sections_def)
  then show ?thesis
    using find_sections_kinds [of tex]
    by (simp add: get_section_context_def spec_context_def context_loop_spec)
qed

lemma begin_marker_unique:
  assumes "plain_name env" "plain_name env'"
    and "occurs_at (begin_marker env) tex s" "occurs_at (begin_marker env') tex s"
  shows "env = env'"
proof -
  have nb: "CHR ''}'' \<notin> set e" if "plain_name e" for e
    using that by (auto simp: plain_name_def list_all_iff is_alpha_def)
  from assms(3) obtain t where t: "drop s tex = begin_marker env @ t"
    by (auto simp: occurs_at_def starts_with_iff)
  from assms(4) obtain t' where t': "drop s tex = begin_marker env' @ t'"
    by (auto simp: occurs_at_def starts_with_iff)
  from t t' have "begin_marker env @ t = begin_marker env' @ t'" by simp
  then have eq: "env @ CHR ''}'' # t = env' @ CHR ''}'' # t'"
    by (simp add: begin_marker_def)
  have "takeWhile (\<lambda>c. c \<noteq> CHR ''}'') (e @ CHR ''}'' # u) = e" if "plain_name e" for e u
    using nb [OF that] by (induction e) auto
  from this [OF assms(1), of t] this [OF assms(2), of t'] eq show ?thesis by simp
qed

lemma dropped_block:
  assumes envs: "list_all plain_name envs" and env: "env \<in> set envs"
    and o: "occurs_at (begin_marker env) tex s"
    and m: "matching_close tex env (s + length (begin_marker env)) = None"
  shows "\<forall>b \<in> set (find_environments tex envs). block_start b \<noteq> s"
proof
  fix b assume b: "b \<in> set (find_environments tex envs)"
  obtain env' body s' where bb: "b = (env', body, s')" by (cases b)
  show "block_start b \<noteq> s"
  proof
    assume "block_start b = s"
    with bb have s': "s' = s" by (simp add: block_start_def)
    from b bb s' set_find_environments [OF envs, of env' body s tex]
    have e': "env' \<in> set envs" "occurs_at (begin_marker env') tex s"
      and c: "\<exists>e. matching_close tex env' (s + length (begin_marker env')) = Some e" by auto
    from envs env e' have "plain_name env" "plain_name env'" by (auto simp: list_all_iff)
    from begin_marker_unique [OF this o e'(2)] c m show False by simp
  qed
qed

lemma collect_total:
  "\<forall>x \<in> set xs. \<exists>y. f x = Inr y \<Longrightarrow>
     \<exists>ys. collect f xs = Inr ys \<and> list_all2 (\<lambda>x y. f x = Inr y) xs ys"
proof (induction xs)
  case Nil
  then show ?case by simp
next
  case (Cons x xs)
  then obtain y ys where "f x = Inr y" "collect f xs = Inr ys" "list_all2 (\<lambda>x y. f x = Inr y) xs ys"
    by auto
  then show ?case by simp
qed

lemma make_card_total:
  "\<exists>c. make_card course all_macros (find_sections tex) blk = Inr c"
  by (cases blk)
     (simp add: make_card_def Let_def get_section_context_find_sections split: prod.splits)

lemma process_file_total:
  "\<exists>cards. process_file course tex global_macros = Inr cards \<and>
      list_all2 (\<lambda>b c. make_card course (global_macros @ load_file_macros tex)
                     (find_sections tex) b = Inr c)
        (find_environments tex ENV_TYPES) cards"
  unfolding process_file_def Let_def
  by (rule collect_total) (use make_card_total in blast)

text \<open>
  Claim C3. An open marker of a requested type that has no matching close marker before
  the end of the document gives no block: no returned block starts at its offset.
  \<open>process_file\<close> returns normally on every document, with exactly one card for each
  returned block, so the unclosed block contributes no card.
\<close>

theorem unclosed_block_dropped:
  "(list_all plain_name envs \<and> env \<in> set envs \<and> occurs_at (begin_marker env) tex s \<and>
    matching_close tex env (s + length (begin_marker env)) = None
      \<longrightarrow> (\<forall>b \<in> set (find_environments tex envs). block_start b \<noteq> s)) \<and>
   (\<exists>cards. process_file course tex global_macros = Inr cards \<and>
      length cards = length (find_environments tex ENV_TYPES) \<and>
      list_all2 (\<lambda>b c. make_card course (global_macros @ load_file_macros tex)
                     (find_sections tex) b = Inr c)
        (find_environments tex ENV_TYPES) cards)"
proof -
  from process_file_total [of course tex global_macros] obtain cards where
    c: "process_file course tex global_macros = Inr cards"
      "list_all2 (\<lambda>b c. make_card course (global_macros @ load_file_macros tex)
                     (find_sections tex) b = Inr c) (find_environments tex ENV_TYPES) cards"
    by blast
  from c(2) have "length cards = length (find_environments tex ENV_TYPES)"
    by (simp add: list_all2_lengthD)
  with c dropped_block [of envs env tex s] show ?thesis by blast
qed

lemma unclosed_example:
  "list_all plain_name ENV_TYPES \<and> ''lemma'' \<in> set ENV_TYPES \<and>
   occurs_at (begin_marker ''lemma'') (''x'' @ bsl # ''begin{lemma}a'') 1 \<and>
   matching_close (''x'' @ bsl # ''begin{lemma}a'') ''lemma'' (1 + length (begin_marker ''lemma'')) = None"
  by code_simp

lemma unclosed_example_result:
  "find_environments (''x'' @ bsl # ''begin{lemma}a'') ENV_TYPES = [] \<and>
   process_file ''C'' (''x'' @ bsl # ''begin{lemma}a'') [] = Inr []"
  by code_simp

theorem unclosed_block_dropped_witness:
  "list_all plain_name ENV_TYPES \<and> ''lemma'' \<in> set ENV_TYPES \<and>
   occurs_at (begin_marker ''lemma'') (''x'' @ bsl # ''begin{lemma}a'') 1 \<and>
   matching_close (''x'' @ bsl # ''begin{lemma}a'') ''lemma'' (1 + length (begin_marker ''lemma'')) = None \<and>
   list_all (\<lambda>b. block_start b \<noteq> 1) (find_environments (''x'' @ bsl # ''begin{lemma}a'') ENV_TYPES) \<and>
   process_file ''C'' (''x'' @ bsl # ''begin{lemma}a'') [] = Inr []"
  using unclosed_block_dropped [of ENV_TYPES "''lemma''" "''x'' @ bsl # ''begin{lemma}a''" 1 "''C''" "[]"]
    unclosed_example unclosed_example_result
  by (simp add: list_all_iff)

section \<open>Nested blocks of one type\<close>

















section \<open>Math delimiters\<close>

text \<open>
  The two math steps are compared with a reading of the text as a list of tokens: a
  delimiter of the step at hand, or a character that the step copies. The definitions
  from here to \<open>no_triple\<close> say what the steps are to compute; the steps of the source are
  \<open>convert_display_math\<close> and \<open>convert_inline_math\<close>.
\<close>

datatype token = Ch char | Lone | Pair

text \<open>
  The text of a token.
\<close>

fun token_text :: "token \<Rightarrow> string" where
  "token_text (Ch c) = [c]"
| "token_text Lone = ''$''"
| "token_text Pair = ''$$''"

text \<open>
  The tokens of the double-dollar step: from left to right, two dollars in a row are a
  \<open>Pair\<close>, every other character stands for itself.
\<close>

fun pair_tokens :: "string \<Rightarrow> token list" where
  "pair_tokens (a # b # s) =
     (if a = CHR ''$'' \<and> b = CHR ''$'' then Pair # pair_tokens s else Ch a # pair_tokens (b # s))"
| "pair_tokens [a] = [Ch a]"
| "pair_tokens [] = []"

text \<open>
  The tokens of the single-dollar step: a dollar with no dollar directly before it
  (\<open>prev\<close> is the character before the text) and none directly after it is \<open>Lone\<close>, every
  other character stands for itself.
\<close>

fun lone_tokens :: "char option \<Rightarrow> string \<Rightarrow> token list" where
  "lone_tokens prev [] = []"
| "lone_tokens prev (c # cs) =
     (if c = CHR ''$'' \<and> prev \<noteq> Some (CHR ''$'') \<and> (case cs of [] \<Rightarrow> True | d # _ \<Rightarrow> d \<noteq> CHR ''$'')
      then Lone else Ch c) # lone_tokens (Some c) cs"

text \<open>
  The delimiters \<open>d\<close> of a token list replaced in turn by \<open>opn\<close> and \<open>cls\<close>: a delimiter met
  outside a span opens one when another delimiter follows it and stays as it is otherwise;
  the next delimiter closes the span. Every other token is copied.
\<close>

fun render :: "token \<Rightarrow> string \<Rightarrow> string \<Rightarrow> bool \<Rightarrow> token list \<Rightarrow> string" where
  "render d opn cls inside [] = []"
| "render d opn cls inside (t # ts) =
     (if t = d then
        (if inside then cls @ render d opn cls False ts
         else if d \<in> set ts then opn @ render d opn cls True ts
         else token_text t @ render d opn cls False ts)
      else token_text t @ render d opn cls inside ts)"

text \<open>
  The tokens of a text for both steps: the pairs of \<open>pair_tokens\<close>, and every dollar
  left over as a \<open>Lone\<close>.
\<close>

definition dollar_tokens :: "string \<Rightarrow> token list" where
  "dollar_tokens t = map (\<lambda>x. if x = Ch (CHR ''$'') then Lone else x) (pair_tokens t)"

text \<open>
  Both kinds of delimiter replaced in one pass, each kind paired on its own: the pairs in
  turn by \<open>\[\<close> and \<open>\]\<close>, the lone dollars in turn by \<open>\(\<close> and \<open>\)\<close>.
\<close>

fun render_both :: "bool \<Rightarrow> bool \<Rightarrow> token list \<Rightarrow> string" where
  "render_both display inline [] = []"
| "render_both display inline (Pair # ts) =
     (if display then bsl # '']'' @ render_both False inline ts
      else if Pair \<in> set ts then bsl # ''['' @ render_both True inline ts
      else ''$$'' @ render_both False inline ts)"
| "render_both display inline (Lone # ts) =
     (if inline then bsl # '')'' @ render_both display False ts
      else if Lone \<in> set ts then bsl # ''('' @ render_both display True ts
      else ''$'' @ render_both display False ts)"
| "render_both display inline (Ch c # ts) = c # render_both display inline ts"

text \<open>
  A text without three dollars in a row.
\<close>

definition no_triple :: "string \<Rightarrow> bool" where
  "no_triple t = (find_sub ''$$$'' t = None)"

text \<open>
  The rewrites of \<open>latex_to_anki_mathjax\<close> before the two math steps, and those after them.
\<close>

definition before_math :: "string \<Rightarrow> string" where
  "before_math text0 =
     (let text = replace_all (bsl # ''qed'') [] text0;
          text = replace_all (bsl # ''par'') [] text;
          text = re_sub (delim_matcher (star_tag (bsl # ''begin{align'')) (star_tag (bsl # ''end{align''))
                   (\<lambda>g. bsl # ''['' @ bsl # ''begin{aligned}'' @ g @ bsl # ''end{aligned}'' @ bsl # '']''))
                   None text;
          text = re_sub (delim_matcher (star_tag (bsl # ''begin{equation'')) (star_tag (bsl # ''end{equation''))
                   (\<lambda>g. bsl # ''['' @ g @ bsl # '']'')) None text;
          text = re_sub enumerate_matcher None text
      in re_sub (delim_matcher (lit (bsl # ''begin{itemize}'')) (lit (bsl # ''end{itemize}''))
                   convert_itemize) None text)"

definition after_math :: "string \<Rightarrow> string" where
  "after_math text0 =
     (let text = re_sub (emphasis_matcher ''textit'' ''i'') None text0;
          text = re_sub (emphasis_matcher ''textbf'' ''b'') None text;
          text = re_sub (emphasis_matcher ''emph'' ''i'') None text
      in normalize_whitespace text)"

text \<open>
  In a token list of the double-dollar step no dollar stands next to a pair or to another
  dollar; \<open>d\<close> tells that the token before the list is a pair or a dollar.
\<close>

fun sep :: "bool \<Rightarrow> token list \<Rightarrow> bool" where
  "sep d [] = True"
| "sep d (Ch c # ts) = (if c = CHR ''$'' then \<not> d \<and> sep True ts else sep False ts)"
| "sep d (Pair # ts) = (\<not> d \<and> sep True ts)"
| "sep d (Lone # ts) = False"

lemma token_text_pair_tokens: "concat (map token_text (pair_tokens s)) = s"
  by (induction s rule: pair_tokens.induct) auto

lemma render_no_delim: "d \<notin> set ts \<Longrightarrow> render d opn cls False ts = concat (map token_text ts)"
  by (induction ts) auto

lemma render_inside_chars:
  "(\<And>c. d \<noteq> Ch c) \<Longrightarrow>
     render d opn cls True (map Ch xs @ d # rest) = xs @ cls @ render d opn cls False rest"
  by (induction xs) auto

lemma find_sub_drop_None: "find_sub q s = None \<Longrightarrow> find_sub q (drop j s) = None"
proof (induction s arbitrary: j)
  case Nil
  then show ?case by simp
next
  case (Cons c cs)
  then show ?case by (cases j) (auto split: if_splits)
qed

lemma lazy_until_lit:
  "q \<noteq> [] \<Longrightarrow> lazy_until (lit q) p s = map_option (\<lambda>k. (k, length q)) (find_sub q s)"
proof (induction s arbitrary: p)
  case Nil
  then show ?case by (cases q) (simp_all add: lit_def)
next
  case (Cons c cs)
  then show ?case by (simp add: lit_def option.map_comp comp_def)
qed

lemma pair_tokens_no_pair: "find_sub ''$$'' s = None \<Longrightarrow> Pair \<notin> set (pair_tokens s)"
  by (induction s rule: pair_tokens.induct) (auto split: if_splits)

lemma pair_tokens_split:
  "find_sub ''$$'' s = Some k \<Longrightarrow>
     pair_tokens s = map Ch (take k s) @ Pair # pair_tokens (drop (k + 2) s)"
proof (induction s arbitrary: k rule: pair_tokens.induct)
  case (1 a b s)
  show ?case
  proof (cases "a = CHR ''$'' \<and> b = CHR ''$''")
    case True
    with 1(3) show ?thesis by simp
  next
    case False
    with 1(3) obtain k' where k: "k = Suc k'" "find_sub ''$$'' (b # s) = Some k'"
      by (auto split: if_splits)
    from 1(2) [OF False k(2)] False k(1) show ?thesis by simp
  qed
qed simp_all

lemma pair_tokens_Cons:
  "\<not> starts_with ''$$'' (c # cs) \<Longrightarrow> pair_tokens (c # cs) = Ch c # pair_tokens cs"
  by (cases cs) auto

lemma display_never:
  "find_sub ''$$'' (drop 2 s) = None \<Longrightarrow>
     never_matches (delim_matcher (lit ''$$'') (lit ''$$'') w) p s"
proof (induction s arbitrary: p)
  case Nil
  show ?case by (simp add: delim_matcher_def lit_def)
next
  case (Cons c cs)
  from Cons.prems have a: "find_sub ''$$'' (drop 1 cs) = None" by simp
  have b: "find_sub ''$$'' (drop 2 cs) = None"
    using find_sub_drop_None [OF a, of 1] by (simp add: numeral_2_eq_2)
  have "delim_matcher (lit ''$$'') (lit ''$$'') w p (c # cs) = None"
  proof (cases "starts_with ''$$'' (c # cs)")
    case True
    have "lit ''$$'' p (c # cs) = Some 2" using True by (auto simp: lit_def)
    then show ?thesis using a by (simp add: delim_matcher_def lazy_until_lit)
  next
    case False
    then have "lit ''$$'' p (c # cs) = None" by (simp add: lit_def)
    then show ?thesis by (simp add: delim_matcher_def)
  qed
  with Cons.IH [OF b] show ?case by simp
qed

lemma display_unchanged_spec:
  "find_sub ''$$'' (drop 2 s) = None \<Longrightarrow> render Pair opn cls False (pair_tokens s) = s"
proof (induction s rule: pair_tokens.induct)
  case (1 a b s)
  show ?case
  proof (cases "a = CHR ''$'' \<and> b = CHR ''$''")
    case True
    from 1(3) have "find_sub ''$$'' s = None" by simp
    from pair_tokens_no_pair [OF this] True show ?thesis
      by (simp add: render_no_delim token_text_pair_tokens)
  next
    case False
    from 1(3) have "find_sub ''$$'' s = None" by simp
    from find_sub_drop_None [OF this, of 1] have "find_sub ''$$'' (drop 2 (b # s)) = None"
      by (simp add: numeral_2_eq_2)
    from 1(2) [OF False this] have "render Pair opn cls False (pair_tokens (b # s)) = b # s" .
    moreover have "pair_tokens (a # b # s) = Ch a # pair_tokens (b # s)" using False by auto
    ultimately show ?thesis by simp
  qed
qed simp_all

lemma display_step:
  "re_sub (delim_matcher (lit ''$$'') (lit ''$$'') (\<lambda>g. opn @ g @ cls)) p s
     = render Pair opn cls False (pair_tokens s)"
proof (induction s arbitrary: p rule: length_induct)
  case (1 s)
  let ?m = "delim_matcher (lit ''$$'') (lit ''$$'') (\<lambda>g. opn @ g @ cls)"
  show ?case
  proof (cases s)
    case Nil
    then show ?thesis by (simp add: delim_matcher_def lit_def)
  next
    case (Cons c cs)
    show ?thesis
    proof (cases "starts_with ''$$'' s")
      case False
      then have "lit ''$$'' p s = None" by (simp add: lit_def)
      then have "?m p (c # cs) = None" unfolding Cons by (simp add: delim_matcher_def)
      moreover have "re_sub ?m (Some c) cs = render Pair opn cls False (pair_tokens cs)"
        using 1 Cons by simp
      ultimately show ?thesis using Cons False by (simp add: pair_tokens_Cons)
    next
      case True
      then obtain x where s: "s = CHR ''$'' # CHR ''$'' # x"
        using Cons by (cases cs) auto
      show ?thesis
      proof (cases "find_sub ''$$'' x")
        case None
        then have n: "find_sub ''$$'' (drop 2 s) = None" using s by simp
        from re_sub_never_matches [OF display_never [OF n]] display_unchanged_spec [OF n]
        show ?thesis by simp
      next
        case (Some k)
        from find_sub_bound [OF Some] have kx: "k + 2 \<le> length x" by simp
        have m: "?m p s = Some (k + 4, opn @ take k x @ cls)"
          using s Some by (simp add: delim_matcher_def lit_def lazy_until_lit)
        have d: "drop (k + 4) s = drop (k + 2) x" using s by (simp add: eval_nat_numeral)
        have "length (drop (k + 2) x) < length s" using s by simp
        with 1 have ih: "re_sub ?m q (drop (k + 2) x)
                = render Pair opn cls False (pair_tokens (drop (k + 2) x))" for q by blast
        have "re_sub ?m p s = opn @ take k x @ cls @ re_sub ?m (Some (last (take (k + 4) s))) (drop (k + 4) s)"
          using m s by simp
        also have "\<dots> = opn @ take k x @ cls @ render Pair opn cls False (pair_tokens (drop (k + 2) x))"
          unfolding d ih ..
        also have "\<dots> = render Pair opn cls False (pair_tokens s)"
          using pair_tokens_split [OF Some] by (simp add: s render_inside_chars)
        finally show ?thesis .
      qed
    qed
  qed
qed

lemma lone_tokens_no_lone: "lazy_until single_dollar p s = None \<Longrightarrow> Lone \<notin> set (lone_tokens p s)"
  by (induction s arbitrary: p) (auto simp: single_dollar_def split: option.splits if_splits)

lemma lone_tokens_split:
  "lazy_until single_dollar p s = Some (k, n) \<Longrightarrow>
     n = 1 \<and> k < length s \<and> s ! k = CHR ''$'' \<and>
     lone_tokens p s = map Ch (take k s) @ Lone # lone_tokens (Some (CHR ''$'')) (drop (Suc k) s)"
proof (induction s arbitrary: p k)
  case Nil
  then show ?case by (simp add: single_dollar_def)
next
  case (Cons c cs)
  show ?case
  proof (cases "single_dollar p (c # cs)")
    case None
    with Cons.prems obtain k' where k: "k = Suc k'" "lazy_until single_dollar (Some c) cs = Some (k', n)"
      by auto
    from Cons.IH [OF k(2)] None k(1) show ?thesis
      by (auto simp: single_dollar_def split: if_splits)
  next
    case (Some a)
    with Cons.prems have "k = 0" "n = a" by simp_all
    with Some show ?thesis by (auto simp: single_dollar_def split: if_splits)
  qed
qed

lemma inline_step:
  "re_sub (delim_matcher single_dollar single_dollar (\<lambda>g. opn @ g @ cls)) p s
     = render Lone opn cls False (lone_tokens p s)"
proof (induction s arbitrary: p rule: length_induct)
  case (1 s)
  let ?m = "delim_matcher single_dollar single_dollar (\<lambda>g. opn @ g @ cls)"
  show ?case
  proof (cases s)
    case Nil
    then show ?thesis by (simp add: delim_matcher_def single_dollar_def)
  next
    case (Cons c cs)
    have ih: "re_sub ?m q r = render Lone opn cls False (lone_tokens q r)"
      if "length r \<le> length cs" for q r
      using 1 Cons that by simp
    show ?thesis
    proof (cases "single_dollar p (c # cs)")
      case None
      then have "?m p (c # cs) = None" by (simp add: delim_matcher_def)
      moreover from None have "lone_tokens p (c # cs) = Ch c # lone_tokens (Some c) cs"
        by (auto simp: single_dollar_def split: if_splits)
      ultimately show ?thesis using Cons ih [of cs "Some c"] by simp
    next
      case (Some a)
      then have c: "c = CHR ''$''" "a = 1"
        and t: "lone_tokens p (c # cs) = Lone # lone_tokens (Some (CHR ''$'')) cs"
        by (auto simp: single_dollar_def split: if_splits)
      show ?thesis
      proof (cases "lazy_until single_dollar (Some (CHR ''$'')) cs")
        case None
        then have "?m p (c # cs) = None"
          using Some c by (simp add: delim_matcher_def prev_after_def)
        with lone_tokens_no_lone [OF None] t Cons c ih [of cs "Some c"]
        show ?thesis by simp
      next
        case (Some kn)
        obtain k n where kn: "kn = (k, n)" by (cases kn)
        from lone_tokens_split [OF Some [unfolded kn]]
        have n: "n = 1" and k: "k < length cs" "cs ! k = CHR ''$''"
          and sp: "lone_tokens (Some (CHR ''$'')) cs
                     = map Ch (take k cs) @ Lone # lone_tokens (Some (CHR ''$'')) (drop (Suc k) cs)"
          by simp_all
        have m: "?m p (c # cs) = Some (k + 2, opn @ take k cs @ cls)"
          using \<open>single_dollar p (c # cs) = Some a\<close> c Some kn n
          by (simp add: delim_matcher_def prev_after_def)
        have l: "last (take (k + 2) (c # cs)) = CHR ''$''"
          using k by (simp add: take_Suc_conv_app_nth)
        have "re_sub ?m p (c # cs)
                = opn @ take k cs @ cls @ re_sub ?m (Some (CHR ''$'')) (drop (Suc k) cs)"
          using m l by simp
        also have "\<dots> = opn @ take k cs @ cls @
                     render Lone opn cls False (lone_tokens (Some (CHR ''$'')) (drop (Suc k) cs))"
          using ih [of "drop (Suc k) cs" "Some (CHR ''$'')"] by simp
        also have "\<dots> = render Lone opn cls False (lone_tokens p (c # cs))"
          unfolding t using sp by (simp add: render_inside_chars)
        finally show ?thesis using Cons by simp
      qed
    qed
  qed
qed


lemma sep_no_lone: "sep d ts \<Longrightarrow> Lone \<notin> set ts"
proof (induction ts arbitrary: d)
  case Nil
  show ?case by simp
next
  case (Cons t ts)
  then show ?case by (cases t) (auto split: if_splits)
qed

lemma sep_head:
  "sep True ts \<Longrightarrow>
     (case render Pair opn cls bd ts of [] \<Rightarrow> True | x # _ \<Rightarrow> x \<noteq> CHR ''$'')"
proof (cases ts)
  case Nil
  then show ?thesis by simp
next
  case (Cons t ts')
  assume "sep True ts"
  with Cons show ?thesis by (cases t) (auto split: if_splits)
qed

lemma lone_after_display:
  "sep d ts \<Longrightarrow> (p = Some (CHR ''$'') \<longrightarrow> d) \<Longrightarrow>
     Lone \<in> set (lone_tokens p (render Pair (bsl # ''['') (bsl # '']'') bd ts))
       \<longleftrightarrow> Ch (CHR ''$'') \<in> set ts"
proof (induction ts arbitrary: p d bd)
  case Nil
  show ?case by simp
next
  case (Cons t ts)
  show ?case
  proof (cases t)
    case (Ch c)
    show ?thesis
    proof (cases "c = CHR ''$''")
      case True
      with Cons.prems Ch have nd: "\<not> d" and s: "sep True ts" by simp_all
      from nd Cons.prems(2) have p: "p \<noteq> Some (CHR ''$'')" by blast
      from sep_head [OF s, of "bsl # ''[''" "bsl # '']''" bd] p True Ch
      show ?thesis by (auto split: list.splits)
    next
      case False
      with Cons.prems Ch have s: "sep False ts" by simp
      from Cons.IH [OF s, of "Some c" bd] False Ch show ?thesis by simp
    qed
  next
    case Lone
    with Cons.prems show ?thesis by simp
  next
    case Pair
    with Cons.prems have s: "sep True ts" by simp
    have ih: "Lone \<in> set (lone_tokens q (render Pair (bsl # ''['') (bsl # '']'') b ts))
                \<longleftrightarrow> Ch (CHR ''$'') \<in> set ts" for q b
      by (rule Cons.IH [OF s]) simp
    show ?thesis unfolding Pair using ih by simp
  qed
qed

lemma inline_after_display:
  "sep d ts \<Longrightarrow> (p = Some (CHR ''$'') \<longrightarrow> d) \<Longrightarrow>
     render Lone (bsl # ''('') (bsl # '')'') bi
       (lone_tokens p (render Pair (bsl # ''['') (bsl # '']'') bd ts))
       = render_both bd bi (map (\<lambda>x. if x = Ch (CHR ''$'') then Lone else x) ts)"
proof (induction ts arbitrary: p d bd bi)
  case Nil
  show ?case by simp
next
  case (Cons t ts)
  let ?f = "\<lambda>x. if x = Ch (CHR ''$'') then Lone else x"
  show ?case
  proof (cases t)
    case (Ch c)
    show ?thesis
    proof (cases "c = CHR ''$''")
      case True
      with Cons.prems Ch have nd: "\<not> d" and s: "sep True ts" by simp_all
      from nd Cons.prems(2) have p: "p \<noteq> Some (CHR ''$'')" by blast
      let ?r = "render Pair (bsl # ''['') (bsl # '']'') bd ts"
      have h: "lone_tokens p (CHR ''$'' # ?r) = Lone # lone_tokens (Some (CHR ''$'')) ?r"
        using sep_head [OF s, of "bsl # ''[''" "bsl # '']''" bd] p by (auto split: list.splits)
      have m: "Lone \<in> set (lone_tokens (Some (CHR ''$'')) ?r) \<longleftrightarrow> Lone \<in> set (map ?f ts)"
        using lone_after_display [OF s, of "Some (CHR ''$'')" bd] sep_no_lone [OF s]
        by (auto simp: image_iff)
      have ih: "render Lone (bsl # ''('') (bsl # '')'') b (lone_tokens (Some (CHR ''$'')) ?r)
                  = render_both bd b (map ?f ts)" for b
        by (rule Cons.IH [OF s]) simp
      have "render Lone (bsl # ''('') (bsl # '')'') bi (lone_tokens p (CHR ''$'' # ?r))
              = render_both bd bi (Lone # map ?f ts)"
        unfolding h using m ih by simp
      then show ?thesis using True Ch by simp
    next
      case False
      with Cons.prems Ch have s: "sep False ts" by simp
      from Cons.IH [OF s, of "Some c" bi bd] False Ch show ?thesis by simp
    qed
  next
    case Lone
    with Cons.prems show ?thesis by simp
  next
    case Pair
    with Cons.prems have s: "sep True ts" by simp
    have i: "Pair \<in> set (map ?f ts) \<longleftrightarrow> Pair \<in> set ts" by (auto simp: image_iff)
    have ih: "render Lone (bsl # ''('') (bsl # '')'') bi
                (lone_tokens q (render Pair (bsl # ''['') (bsl # '']'') b ts))
                = render_both b bi (map ?f ts)" for q b
      by (rule Cons.IH [OF s]) simp
    show ?thesis unfolding Pair using i ih by simp
  qed
qed

lemma no_triple_sep:
  "find_sub ''$$$'' s = None \<Longrightarrow> (d \<longrightarrow> (case s of [] \<Rightarrow> True | x # _ \<Rightarrow> x \<noteq> CHR ''$'')) \<Longrightarrow>
     sep d (pair_tokens s)"
proof (induction s arbitrary: d rule: pair_tokens.induct)
  case (1 a b s)
  from 1(3) have n: "find_sub ''$$$'' (b # s) = None" by (auto split: if_splits)
  show ?case
  proof (cases "a = CHR ''$'' \<and> b = CHR ''$''")
    case True
    from n have n': "find_sub ''$$$'' s = None" by (auto split: if_splits)
    from 1(3) True have h: "case s of [] \<Rightarrow> True | x # _ \<Rightarrow> x \<noteq> CHR ''$''"
      by (auto split: list.splits if_splits)
    from 1(1) [OF True n', of True] h 1(4) True show ?thesis by simp
  next
    case False
    have t: "pair_tokens (a # b # s) = Ch a # pair_tokens (b # s)" using False by auto
    show ?thesis
    proof (cases "a = CHR ''$''")
      case True
      with False have "b \<noteq> CHR ''$''" by simp
      with 1(2) [OF False n, of True] 1(4) True show ?thesis unfolding t by auto
    next
      case F: False
      with 1(2) [OF False n, of False] show ?thesis unfolding t by simp
    qed
  qed
next
  case (2 a)
  then show ?case by auto
next
  case 3
  show ?case by simp
qed

lemma math_steps_compose:
  assumes "no_triple t"
  shows "convert_inline_math (convert_display_math t) = render_both False False (dollar_tokens t)"
proof -
  have w1: "(\<lambda>g. bsl # ''['' @ g @ bsl # '']'') = (\<lambda>g. (bsl # ''['') @ g @ (bsl # '']''))" by simp
  have w2: "(\<lambda>g. bsl # ''('' @ g @ bsl # '')'') = (\<lambda>g. (bsl # ''('') @ g @ (bsl # '')''))" by simp
  have s: "sep False (pair_tokens t)"
    by (rule no_triple_sep) (use assms in \<open>simp_all add: no_triple_def\<close>)
  have "convert_inline_math (convert_display_math t)
          = render Lone (bsl # ''('') (bsl # '')'') False
              (lone_tokens None (render Pair (bsl # ''['') (bsl # '']'') False (pair_tokens t)))"
    unfolding convert_inline_math_def convert_display_math_def w1 w2 display_step inline_step ..
  also have "\<dots> = render_both False False (dollar_tokens t)"
    unfolding dollar_tokens_def by (rule inline_after_display [OF s]) simp
  finally show ?thesis .
qed


lemma display_before_inline:
  "latex_to_anki_mathjax t = after_math (convert_inline_math (convert_display_math (before_math t)))"
  by (simp add: latex_to_anki_mathjax_def before_math_def after_math_def Let_def)

lemma convert_display_math_tokens:
  "convert_display_math t = render Pair (bsl # ''['') (bsl # '']'') False (pair_tokens t)"
proof -
  have w: "(\<lambda>g. bsl # ''['' @ g @ bsl # '']'') = (\<lambda>g. (bsl # ''['') @ g @ (bsl # '']''))" by simp
  show ?thesis unfolding convert_display_math_def w display_step ..
qed

lemma convert_inline_math_tokens:
  "convert_inline_math t = render Lone (bsl # ''('') (bsl # '')'') False (lone_tokens None t)"
proof -
  have w: "(\<lambda>g. bsl # ''('' @ g @ bsl # '')'') = (\<lambda>g. (bsl # ''('') @ g @ (bsl # '')''))" by simp
  show ?thesis unfolding convert_inline_math_def w inline_step ..
qed

text \<open>
  Claim C5 fails as stated for a text with three dollars in a row. In \<open>$b$$$a$$\<close>, an inline
  span directly followed by a display span, the double-dollar step pairs the closing dollar
  of \<open>$b$\<close> with the first dollar of \<open>$$a$$\<close>, and the second dollar of that doubled delimiter
  is then read as a single-dollar delimiter: the result is \<open>\(b\[\)a\]\<close>, not
  \<open>\(b\)\[a\]\<close>.
\<close>

theorem math_delimiters_interfere_counterexample:
  "latex_to_anki_mathjax ''$b$$$a$$'' = bsl # ''(b'' @ bsl # ''['' @ bsl # '')a'' @ bsl # '']'' \<and>
   latex_to_anki_mathjax ''$b$$$a$$'' \<noteq> bsl # ''(b'' @ bsl # '')'' @ bsl # ''[a'' @ bsl # '']'' \<and>
   convert_display_math ''$b$$$a$$'' = ''$b'' @ bsl # ''[$a'' @ bsl # '']''"
  by code_simp

text \<open>
  Claim C5, amended. The converter maps \<open>$$E=mc^2$$\<close> to \<open>\[E=mc^2\]\<close>, \<open>$x$\<close> to \<open>\(x\)\<close>
  and \<open>$$a$$$b$\<close> to \<open>\[a\]\(b\)\<close>. For every input the converter is the rewrites before the
  math steps, then the double-dollar step, then the single-dollar step, then the remaining
  rewrites. For every text the double-dollar step reads the text from left to right as
  pairs of dollars and single characters and replaces the pairs in turn by \<open>\[\<close> and
  \<open>\]\<close>, a pair with no pair after it to close it staying as it is; the single-dollar step
  does the same with the dollars that have no dollar directly before or after them and
  \<open>\(\<close> and \<open>\)\<close>, every other character staying as it is. For every text without three
  dollars in a row the two steps together replace the pairs in turn by \<open>\[\<close> and \<open>\]\<close> and
  the remaining dollars in turn by \<open>\(\<close> and \<open>\)\<close>, each kind paired on its own: no dollar
  of a doubled delimiter is read as a single-dollar delimiter.
\<close>

theorem math_delimiters_paired:
  "latex_to_anki_mathjax ''$$E=mc^2$$'' = bsl # ''[E=mc^2'' @ bsl # '']'' \<and>
   latex_to_anki_mathjax ''$x$'' = bsl # ''(x'' @ bsl # '')'' \<and>
   latex_to_anki_mathjax ''$$a$$$b$'' = bsl # ''[a'' @ bsl # '']'' @ bsl # ''(b'' @ bsl # '')'' \<and>
   latex_to_anki_mathjax t
     = after_math (convert_inline_math (convert_display_math (before_math t))) \<and>
   convert_display_math t = render Pair (bsl # ''['') (bsl # '']'') False (pair_tokens t) \<and>
   convert_inline_math t = render Lone (bsl # ''('') (bsl # '')'') False (lone_tokens None t) \<and>
   (no_triple t \<longrightarrow>
      convert_inline_math (convert_display_math t) = render_both False False (dollar_tokens t))"
proof -
  have 1: "latex_to_anki_mathjax ''$$E=mc^2$$'' = bsl # ''[E=mc^2'' @ bsl # '']''" by code_simp
  have 2: "latex_to_anki_mathjax ''$x$'' = bsl # ''(x'' @ bsl # '')''" by code_simp
  have 3: "latex_to_anki_mathjax ''$$a$$$b$'' = bsl # ''[a'' @ bsl # '']'' @ bsl # ''(b'' @ bsl # '')''"
    by code_simp
  have 4: "no_triple t \<longrightarrow>
      convert_inline_math (convert_display_math t) = render_both False False (dollar_tokens t)"
    using math_steps_compose by blast
  from 1 2 3 display_before_inline [of t] convert_display_math_tokens [of t]
    convert_inline_math_tokens [of t] 4
  show ?thesis by (intro conjI)
qed

theorem math_delimiters_paired_witness:
  "no_triple ''$$c$$ and $a $$ b$'' \<and>
   convert_inline_math (convert_display_math ''$$c$$ and $a $$ b$'')
     = render_both False False (dollar_tokens ''$$c$$ and $a $$ b$'') \<and>
   render_both False False (dollar_tokens ''$$c$$ and $a $$ b$'')
     = bsl # ''[c'' @ bsl # ''] and '' @ bsl # ''(a $$ b'' @ bsl # '')''"
proof -
  have n: "no_triple ''$$c$$ and $a $$ b$''" by code_simp
  have r: "render_both False False (dollar_tokens ''$$c$$ and $a $$ b$'')
     = bsl # ''[c'' @ bsl # ''] and '' @ bsl # ''(a $$ b'' @ bsl # '')''"
    by code_simp
  from math_delimiters_paired [of "''$$c$$ and $a $$ b$''"] n
  have c: "convert_inline_math (convert_display_math ''$$c$$ and $a $$ b$'')
     = render_both False False (dollar_tokens ''$$c$$ and $a $$ b$'')" by blast
  from n c r show ?thesis by (intro conjI)
qed

end
